theory Spec2Isabelle
  imports Main "HOL-Library.Word"
begin

unbundle bit_operations_syntax

section \<open>The PGS segment reader of \<^verbatim>\<open>pgs/reader.go\<close>\<close>

text \<open>
  A shallow embedding of \<^verbatim>\<open>SegmentReader.ReadSegment\<close> and its four body parsers.
  Every function takes the state of the byte source and returns the result together with
  the state the source is left in, also when it fails, so that the number of bytes a call
  consumes can be stated.
\<close>

subsection \<open>Integers and errors\<close>

type_synonym byte = "8 word"
type_synonym uint16 = "16 word"
type_synonym uint24 = "24 word"
type_synonym uint32 = "32 word"

text \<open>
  Go's \<^verbatim>\<open>error\<close> values that the reader can return: the two sentinels of package
  \<^verbatim>\<open>io\<close>, and one constructor for each \<^verbatim>\<open>fmt.Errorf\<close> of the source, carrying its
  arguments (a \<^verbatim>\<open>%w\<close> argument is the wrapped error).
\<close>

datatype error =
    EOF
  | ErrUnexpectedEOF
  | SegmentHeaderErr error
      \<comment> \<open>\<^verbatim>\<open>"segment header: %w"\<close>\<close>
  | MagicNumberErr uint16
      \<comment> \<open>\<^verbatim>\<open>"magic number not "PG" 0x5047: %x"\<close>\<close>
  | UnrecognizedSegmentType byte
      \<comment> \<open>\<^verbatim>\<open>"unrecognized segment type: 0x%x"\<close>\<close>
  | PCSErr error
      \<comment> \<open>\<^verbatim>\<open>"presentation composition segment: %w"\<close>\<close>
  | WDSErr error
      \<comment> \<open>\<^verbatim>\<open>"window definition segment: %w"\<close>\<close>
  | PDSErr error
      \<comment> \<open>\<^verbatim>\<open>"palette definition segment: %w"\<close>\<close>
  | ODSErr error
      \<comment> \<open>\<^verbatim>\<open>"object definition segment: %w"\<close>\<close>
  | UnrecognizedCompositionState byte
      \<comment> \<open>\<^verbatim>\<open>"unrecognized composition state: 0x%x"\<close>\<close>
  | UnrecognizedPaletteUpdateFlag byte
      \<comment> \<open>\<^verbatim>\<open>"unrecognized palette update flag: 0x%x"\<close>\<close>
  | CompositionObjectErr nat byte error
      \<comment> \<open>\<^verbatim>\<open>"composition object %d/%d: %w"\<close>\<close>
  | UnrecognizedCropFlag nat byte byte
      \<comment> \<open>\<^verbatim>\<open>"composition object %d/%d: unrecognized flag: 0x%x"\<close>\<close>
  | ReadBytesMismatch int uint16
      \<comment> \<open>\<^verbatim>\<open>"read %d bytes, %d bytes declared in header"\<close>\<close>
  | WindowCountMismatch uint16 uint16 byte
      \<comment> \<open>\<^verbatim>\<open>"segment size %d indicates %d windows, but %d specified"\<close>\<close>
  | InvalidSegmentSize uint16
      \<comment> \<open>\<^verbatim>\<open>"invalid segment size of %d bytes in header"\<close>\<close>
  | PaletteEntryErr nat uint16 error
      \<comment> \<open>\<^verbatim>\<open>"palette entry %d/%d: %w"\<close>\<close>
  | PaletteIDReused nat uint16 byte
      \<comment> \<open>\<^verbatim>\<open>"palette entry %d/%d: ID %d reused"\<close>\<close>
  | UnrecognizedSequenceFlag byte
      \<comment> \<open>\<^verbatim>\<open>"unrecognized flag: 0x%x"\<close>\<close>
  | DataLengthErr
      \<comment> \<open>\<^verbatim>\<open>"data length excludes width and height"\<close>\<close>
  | Panic byte
      \<comment> \<open>\<^verbatim>\<open>panic(fmt.Sprintf("illegal: %d", h.SegmentType))\<close>\<close>

subsection \<open>The byte source\<close>

text \<open>
  \<^verbatim>\<open>SegmentReader.r\<close> is an \<^verbatim>\<open>io.Reader\<close>. Its contract: \<^verbatim>\<open>Read(p)\<close> delivers
  between 0 and \<^verbatim>\<open>len(p)\<close> bytes, possibly fewer than asked for although more will
  follow; at the end of the stream it reports \<^verbatim>\<open>io.EOF\<close>, either together with the last
  bytes or alone on the next call. The state of the source is the list of the chunks it
  has yet to deliver (one \<^verbatim>\<open>Read\<close> never crosses a chunk boundary; an empty chunk is a
  \<^verbatim>\<open>Read\<close> that returns \<^verbatim>\<open>0, nil\<close>) and which of the two end-of-stream behaviours
  it has.
\<close>

record Reader =
  chunks :: "byte list list"
  eof_with_data :: bool

definition stream :: "Reader \<Rightarrow> byte list" where
  "stream r = concat (chunks r)"

text \<open>\<^verbatim>\<open>r.Read(p)\<close> with \<^verbatim>\<open>len(p) = k\<close>: the bytes stored into \<^verbatim>\<open>p\<close>, the error, the new state.\<close>

definition Read :: "nat \<Rightarrow> Reader \<Rightarrow> byte list \<times> error option \<times> Reader" where
  "Read k r =
     (case chunks r of
        [] \<Rightarrow> ([], Some EOF, r)
      | c # cs \<Rightarrow>
          if length c \<le> k
          then (c, if cs = [] \<and> eof_with_data r then Some EOF else None, r\<lparr>chunks := cs\<rparr>)
          else (take k c, None, r\<lparr>chunks := drop k c # cs\<rparr>))"

text \<open>
  \<^verbatim>\<open>io.ReadAtLeast(r, buf, min)\<close> with \<^verbatim>\<open>len(buf) = min\<close>, as \<^verbatim>\<open>io.ReadFull\<close> calls it:
  \<^verbatim>\<open>
  for n < min && err == nil { nn, err = r.Read(buf[n:]); n += nn }
  if n >= min { err = nil } else if n > 0 && err == EOF { err = ErrUnexpectedEOF }
  \<close>
  The loop carries the bytes read so far.
\<close>

function ReadFull_loop :: "nat \<Rightarrow> byte list \<Rightarrow> Reader \<Rightarrow> byte list \<times> error option \<times> Reader" where
  "ReadFull_loop m buf r =
     (if length buf < m
      then (case Read (m - length buf) r of
              (bs, None, r') \<Rightarrow> ReadFull_loop m (buf @ bs) r'
            | (bs, Some e, r') \<Rightarrow> (buf @ bs, Some e, r'))
      else (buf, None, r))"
  by pat_completeness auto
termination
  by (relation "measure (\<lambda>(m, buf, r). (m - length buf) + length (chunks r))")
     (auto simp: Read_def split: list.splits if_splits)

declare ReadFull_loop.simps [simp del]

definition ReadFull :: "nat \<Rightarrow> Reader \<Rightarrow> (error + byte list) \<times> Reader" where
  "ReadFull m r =
     (case ReadFull_loop m [] r of
        (buf, err, r') \<Rightarrow>
          (let err' = (if length buf \<ge> m then None
                       else if length buf > 0 \<and> err = Some EOF then Some ErrUnexpectedEOF
                       else err)
           in case err' of None \<Rightarrow> (Inr buf, r') | Some e \<Rightarrow> (Inl e, r')))"

text \<open>
  \<^verbatim>\<open>binary.Read(r, binary.BigEndian, &v)\<close> for a struct \<^verbatim>\<open>v\<close> of fixed size reads
  exactly that many bytes with \<^verbatim>\<open>io.ReadFull\<close> and decodes the fields in order, every
  integer big-endian.
\<close>

definition be :: "byte list \<Rightarrow> 'a::len word" where
  "be bs = foldl (\<lambda>acc b. push_bit 8 acc OR ucast b) 0 bs"

definition field :: "nat \<Rightarrow> nat \<Rightarrow> byte list \<Rightarrow> 'a::len word" where
  "field off len bs = be (take len (drop off bs))"

definition binary_Read :: "nat \<Rightarrow> (byte list \<Rightarrow> 'a) \<Rightarrow> Reader \<Rightarrow> (error + 'a) \<times> Reader" where
  "binary_Read n decode r =
     (case ReadFull n r of
        (Inl err, r') \<Rightarrow> (Inl err, r')
      | (Inr bs, r') \<Rightarrow> (Inr (decode bs), r'))"

subsection \<open>Declarations the reader uses\<close>

text \<open>
  The constants the reader compares against are declared outside \<^verbatim>\<open>reader.go\<close>, and so
  is the method \<^verbatim>\<open>Duration\<close> of the timestamp type. They are parameters of the model:
  every function below takes them as its first argument.
\<close>

record constants =
  pcsType :: byte
  wdsType :: byte
  pdsType :: byte
  odsType :: byte
  endType :: byte
  Normal :: byte
  AcquisitionPoint :: byte
  EpochStart :: byte
  pufTrue :: byte
  croppedForce :: byte
  firstInSequence :: byte
  lastInSequence :: byte
  Duration :: "uint32 \<Rightarrow> int"

text \<open>
  The five segment types are the cases of one \<^verbatim>\<open>switch\<close>, which Go compiles only when
  its constant cases are pairwise different.
\<close>

definition distinct_types :: "constants \<Rightarrow> bool" where
  "distinct_types K = distinct [pcsType K, wdsType K, pdsType K, odsType K, endType K]"

text \<open>
  Modelled from the spec: the struct types \<^verbatim>\<open>header\<close>, \<^verbatim>\<open>pcs\<close>,
  \<^verbatim>\<open>pcsCompositionObject\<close>, \<^verbatim>\<open>CompositionObjectCrop\<close>, \<^verbatim>\<open>wds\<close>, \<^verbatim>\<open>Window\<close>,
  \<^verbatim>\<open>pds\<close>, \<^verbatim>\<open>PaletteEntry\<close> and \<^verbatim>\<open>ods\<close> that \<^verbatim>\<open>binary.Read\<close> fills, and the
  result types \<^verbatim>\<open>Segment\<close>, \<^verbatim>\<open>PresentationComposition\<close>, \<^verbatim>\<open>CompositionObject\<close>,
  \<^verbatim>\<open>Palette\<close> and \<^verbatim>\<open>Object\<close>, are declared outside \<^verbatim>\<open>reader.go\<close>. Their fields are
  the ones the reader names; the sizes and the order of the fields are the spec's: a
  13-byte header (2-byte magic, two 4-byte timestamps, 1-byte type tag, 2-byte body size),
  an 11-byte composition header, 8-byte composition objects and crops, a 1-byte window
  count, 9-byte windows, a 2-byte palette header, 5-byte palette entries, and an 11-byte
  object header with a 3-byte big-endian data length. Field names carry the struct's name
  as a prefix, since several structs have a \<^verbatim>\<open>Width\<close> or an \<^verbatim>\<open>ID\<close>.
\<close>

record header =
  h_MagicNumber :: uint16
  h_PresentationTime :: uint32
  h_DecodingTime :: uint32
  h_SegmentType :: byte
  h_SegmentSize :: uint16

definition decode_header :: "byte list \<Rightarrow> header" where
  "decode_header bs =
     \<lparr>h_MagicNumber = field 0 2 bs, h_PresentationTime = field 2 4 bs,
      h_DecodingTime = field 6 4 bs, h_SegmentType = field 10 1 bs,
      h_SegmentSize = field 11 2 bs\<rparr>"

record pcs =
  pcs_Width :: uint16
  pcs_Height :: uint16
  pcs_FrameRate :: byte
  pcs_CompositionNumber :: uint16
  pcs_CompositionState :: byte
  pcs_PaletteUpdateFlag :: byte
  pcs_PaletteID :: byte
  pcs_ObjectCount :: byte

definition decode_pcs :: "byte list \<Rightarrow> pcs" where
  "decode_pcs bs =
     \<lparr>pcs_Width = field 0 2 bs, pcs_Height = field 2 2 bs, pcs_FrameRate = field 4 1 bs,
      pcs_CompositionNumber = field 5 2 bs, pcs_CompositionState = field 7 1 bs,
      pcs_PaletteUpdateFlag = field 8 1 bs, pcs_PaletteID = field 9 1 bs,
      pcs_ObjectCount = field 10 1 bs\<rparr>"

record pcsCompositionObject =
  pco_ObjectID :: uint16
  pco_WindowID :: byte
  pco_ObjectCropped :: byte
  pco_X :: uint16
  pco_Y :: uint16

definition decode_pcsCompositionObject :: "byte list \<Rightarrow> pcsCompositionObject" where
  "decode_pcsCompositionObject bs =
     \<lparr>pco_ObjectID = field 0 2 bs, pco_WindowID = field 2 1 bs,
      pco_ObjectCropped = field 3 1 bs, pco_X = field 4 2 bs, pco_Y = field 6 2 bs\<rparr>"

record CompositionObjectCrop =
  Crop_X :: uint16
  Crop_Y :: uint16
  Crop_Width :: uint16
  Crop_Height :: uint16

definition decode_CompositionObjectCrop :: "byte list \<Rightarrow> CompositionObjectCrop" where
  "decode_CompositionObjectCrop bs =
     \<lparr>Crop_X = field 0 2 bs, Crop_Y = field 2 2 bs,
      Crop_Width = field 4 2 bs, Crop_Height = field 6 2 bs\<rparr>"

record CompositionObject =
  CO_ObjectID :: uint16
  CO_WindowID :: byte
  CO_X :: uint16
  CO_Y :: uint16
  CO_Crop :: "CompositionObjectCrop option"

record PresentationComposition =
  PC_Width :: uint16
  PC_Height :: uint16
  PC_FrameRate :: byte
  PC_CompositionNumber :: uint16
  PC_CompositionState :: byte
  PC_PaletteUpdate :: bool
  PC_PaletteID :: byte
  PC_Objects :: "CompositionObject list"

record wds =
  wds_WindowCount :: byte

definition decode_wds :: "byte list \<Rightarrow> wds" where
  "decode_wds bs = \<lparr>wds_WindowCount = field 0 1 bs\<rparr>"

record Window =
  Window_ID :: byte
  Window_X :: uint16
  Window_Y :: uint16
  Window_Width :: uint16
  Window_Height :: uint16

definition decode_Window :: "byte list \<Rightarrow> Window" where
  "decode_Window bs =
     \<lparr>Window_ID = field 0 1 bs, Window_X = field 1 2 bs, Window_Y = field 3 2 bs,
      Window_Width = field 5 2 bs, Window_Height = field 7 2 bs\<rparr>"

record pds =
  pds_PaletteID :: byte
  pds_PaletteVersion :: byte

definition decode_pds :: "byte list \<Rightarrow> pds" where
  "decode_pds bs = \<lparr>pds_PaletteID = field 0 1 bs, pds_PaletteVersion = field 1 1 bs\<rparr>"

record PaletteEntry =
  Entry_ID :: byte
  Entry_Y :: byte
  Entry_Cr :: byte
  Entry_Cb :: byte
  Entry_A :: byte

definition decode_PaletteEntry :: "byte list \<Rightarrow> PaletteEntry" where
  "decode_PaletteEntry bs =
     \<lparr>Entry_ID = field 0 1 bs, Entry_Y = field 1 1 bs, Entry_Cr = field 2 1 bs,
      Entry_Cb = field 3 1 bs, Entry_A = field 4 1 bs\<rparr>"

record Palette =
  Palette_ID :: byte
  Palette_Version :: byte
  Palette_Entries :: "PaletteEntry list"

record ods =
  ods_ObjectID :: uint16
  ods_ObjectVersion :: byte
  ods_SequenceFlag :: byte
  ods_ObjectDataLength :: uint24
  ods_Width :: uint16
  ods_Height :: uint16

definition decode_ods :: "byte list \<Rightarrow> ods" where
  "decode_ods bs =
     \<lparr>ods_ObjectID = field 0 2 bs, ods_ObjectVersion = field 2 1 bs,
      ods_SequenceFlag = field 3 1 bs, ods_ObjectDataLength = field 4 3 bs,
      ods_Width = field 7 2 bs, ods_Height = field 9 2 bs\<rparr>"

text \<open>The method \<^verbatim>\<open>Uint32\<close> of the 3-byte length: the same number in 32 bits.\<close>

definition Uint32 :: "uint24 \<Rightarrow> uint32" where
  "Uint32 l = ucast l"

record Object =
  Object_ID :: uint16
  Object_Version :: byte
  Object_First :: bool
  Object_Last :: bool
  Object_Width :: uint16
  Object_Height :: uint16
  Object_ObjectData :: "byte list"

text \<open>\<^verbatim>\<open>Segment.Data\<close> is an interface value: \<^verbatim>\<open>nil\<close> or one of four payloads.\<close>

datatype SegmentData =
    PCS PresentationComposition
  | WDS "Window list"
  | PDS Palette
  | ODS Object

record Segment =
  Segment_PresentationTime :: int
  Segment_DecodingTime :: int
  Segment_Data :: "SegmentData option"

subsection \<open>readPresentationComposition\<close>

text \<open>
  The loop \<^verbatim>\<open>for i := range objects\<close> over the \<^verbatim>\<open>pcs.ObjectCount\<close> slots of
  \<^verbatim>\<open>objects\<close>. It carries the index \<^verbatim>\<open>i\<close>, the slots filled so far
  (\<^verbatim>\<open>objects[0:i]\<close>) and \<^verbatim>\<open>size\<close>, a Go \<^verbatim>\<open>int\<close> that stays below 4092.
\<close>

function readPresentationComposition_loop ::
  "constants \<Rightarrow> byte \<Rightarrow> nat \<Rightarrow> CompositionObject list \<Rightarrow> int \<Rightarrow> Reader
     \<Rightarrow> (error + CompositionObject list \<times> int) \<times> Reader" where
  "readPresentationComposition_loop K ObjectCount i objects sz r =
     (if i < unat ObjectCount
      then (case binary_Read 8 decode_pcsCompositionObject r of
              (Inl err, r1) \<Rightarrow> (Inl (CompositionObjectErr (i + 1) ObjectCount err), r1)
            | (Inr obj, r1) \<Rightarrow>
                (let object = \<lparr>CO_ObjectID = pco_ObjectID obj, CO_WindowID = pco_WindowID obj,
                               CO_X = pco_X obj, CO_Y = pco_Y obj, CO_Crop = None\<rparr>
                 in if pco_ObjectCropped obj AND NOT (croppedForce K) \<noteq> 0
                    then (Inl (UnrecognizedCropFlag (i + 1) ObjectCount (pco_ObjectCropped obj)), r1)
                    else if pco_ObjectCropped obj = croppedForce K
                    then (case binary_Read 8 decode_CompositionObjectCrop r1 of
                            (Inl err, r2) \<Rightarrow> (Inl err, r2)
                          | (Inr crop, r2) \<Rightarrow>
                              readPresentationComposition_loop K ObjectCount (i + 1)
                                (objects @ [object\<lparr>CO_Crop := Some crop\<rparr>]) (sz + 8 + 8) r2)
                    else readPresentationComposition_loop K ObjectCount (i + 1)
                           (objects @ [object]) (sz + 8) r1))
      else (Inr (objects, sz), r))"
  by pat_completeness auto
termination
  by (relation "measure (\<lambda>(K, ObjectCount, i, objects, sz, r). unat ObjectCount - i)") auto

declare readPresentationComposition_loop.simps [simp del]

definition readPresentationComposition ::
  "constants \<Rightarrow> uint16 \<Rightarrow> Reader \<Rightarrow> (error + PresentationComposition) \<times> Reader" where
  "readPresentationComposition K segmentSize r =
     (case binary_Read 11 decode_pcs r of
        (Inl err, r1) \<Rightarrow> (Inl err, r1)
      | (Inr pcs, r1) \<Rightarrow>
          if \<not> (pcs_CompositionState pcs = Normal K
                \<or> pcs_CompositionState pcs = AcquisitionPoint K
                \<or> pcs_CompositionState pcs = EpochStart K)
          then (Inl (UnrecognizedCompositionState (pcs_CompositionState pcs)), r1)
          else if pcs_PaletteUpdateFlag pcs AND NOT (pufTrue K) \<noteq> 0
          then (Inl (UnrecognizedPaletteUpdateFlag (pcs_PaletteUpdateFlag pcs)), r1)
          else (case readPresentationComposition_loop K (pcs_ObjectCount pcs) 0 [] 11 r1 of
                  (Inl err, r2) \<Rightarrow> (Inl err, r2)
                | (Inr (objects, sz), r2) \<Rightarrow>
                    if sz \<noteq> uint segmentSize
                    then (Inl (ReadBytesMismatch sz segmentSize), r2)
                    else (Inr \<lparr>PC_Width = pcs_Width pcs, PC_Height = pcs_Height pcs,
                               PC_FrameRate = pcs_FrameRate pcs,
                               PC_CompositionNumber = pcs_CompositionNumber pcs,
                               PC_CompositionState = pcs_CompositionState pcs,
                               PC_PaletteUpdate = (pcs_PaletteUpdateFlag pcs AND pufTrue K \<noteq> 0),
                               PC_PaletteID = pcs_PaletteID pcs,
                               PC_Objects = objects\<rparr>, r2)))"

subsection \<open>readWindows\<close>

text \<open>The loop \<^verbatim>\<open>for i := range windows\<close>, carrying \<^verbatim>\<open>i\<close> and \<^verbatim>\<open>windows[0:i]\<close>.\<close>

function readWindows_loop ::
  "byte \<Rightarrow> nat \<Rightarrow> Window list \<Rightarrow> Reader \<Rightarrow> (error + Window list) \<times> Reader" where
  "readWindows_loop WindowCount i windows r =
     (if i < unat WindowCount
      then (case binary_Read 9 decode_Window r of
              (Inl err, r1) \<Rightarrow> (Inl err, r1)
            | (Inr w, r1) \<Rightarrow> readWindows_loop WindowCount (i + 1) (windows @ [w]) r1)
      else (Inr windows, r))"
  by pat_completeness auto
termination
  by (relation "measure (\<lambda>(WindowCount, i, windows, r). unat WindowCount - i)") auto

declare readWindows_loop.simps [simp del]

text \<open>\<^verbatim>\<open>uint16(wds.WindowCount)*9+1\<close> is computed in 16 bits.\<close>

definition readWindows :: "uint16 \<Rightarrow> Reader \<Rightarrow> (error + Window list) \<times> Reader" where
  "readWindows segmentSize r =
     (case binary_Read 1 decode_wds r of
        (Inl err, r1) \<Rightarrow> (Inl err, r1)
      | (Inr wds, r1) \<Rightarrow>
          if segmentSize \<noteq> ucast (wds_WindowCount wds) * 9 + 1
          then (Inl (WindowCountMismatch segmentSize (ucast (wds_WindowCount wds) * 9 + 1)
                       (wds_WindowCount wds)), r1)
          else readWindows_loop (wds_WindowCount wds) 0 [] r1)"

subsection \<open>readPalette\<close>

text \<open>
  The loop \<^verbatim>\<open>for i := range entries\<close>, carrying \<^verbatim>\<open>i\<close>, \<^verbatim>\<open>entries[0:i]\<close> and the
  key set of the map \<^verbatim>\<open>ids\<close>.
\<close>

function readPalette_loop ::
  "uint16 \<Rightarrow> nat \<Rightarrow> PaletteEntry list \<Rightarrow> byte set \<Rightarrow> Reader
     \<Rightarrow> (error + PaletteEntry list) \<times> Reader" where
  "readPalette_loop n i entries ids r =
     (if i < unat n
      then (case binary_Read 5 decode_PaletteEntry r of
              (Inl err, r1) \<Rightarrow> (Inl (PaletteEntryErr i n err), r1)
            | (Inr entry, r1) \<Rightarrow>
                if Entry_ID entry \<in> ids
                then (Inl (PaletteIDReused i n (Entry_ID entry)), r1)
                else readPalette_loop n (i + 1) (entries @ [entry]) (insert (Entry_ID entry) ids) r1)
      else (Inr entries, r))"
  by pat_completeness auto
termination
  by (relation "measure (\<lambda>(n, i, entries, ids, r). unat n - i)") auto

declare readPalette_loop.simps [simp del]

definition readPalette :: "uint16 \<Rightarrow> Reader \<Rightarrow> (error + Palette) \<times> Reader" where
  "readPalette segmentSize r =
     (if segmentSize mod 5 \<noteq> 2
      then (Inl (InvalidSegmentSize segmentSize), r)
      else (case binary_Read 2 decode_pds r of
              (Inl err, r1) \<Rightarrow> (Inl err, r1)
            | (Inr pds, r1) \<Rightarrow>
                (case readPalette_loop ((segmentSize - 2) div 5) 0 [] {} r1 of
                   (Inl err, r2) \<Rightarrow> (Inl err, r2)
                 | (Inr entries, r2) \<Rightarrow>
                     (Inr \<lparr>Palette_ID = pds_PaletteID pds,
                            Palette_Version = pds_PaletteVersion pds,
                            Palette_Entries = entries\<rparr>, r2))))"

subsection \<open>readObject\<close>

text \<open>
  The loop
  \<^verbatim>\<open>
  for n < dataLen { n0, err := sr.r.Read(data[n:]); if err != nil { return nil, err }; n += n0 }
  \<close>
  carrying \<^verbatim>\<open>data[0:n]\<close>, the part of the buffer filled so far. The bytes a \<^verbatim>\<open>Read\<close>
  delivers together with an error are dropped with the buffer.
\<close>

function readObject_loop :: "nat \<Rightarrow> byte list \<Rightarrow> Reader \<Rightarrow> (error + byte list) \<times> Reader" where
  "readObject_loop dataLen data r =
     (if length data < dataLen
      then (case Read (dataLen - length data) r of
              (bs, Some err, r1) \<Rightarrow> (Inl err, r1)
            | (bs, None, r1) \<Rightarrow> readObject_loop dataLen (data @ bs) r1)
      else (Inr data, r))"
  by pat_completeness auto
termination
  by (relation "measure (\<lambda>(dataLen, data, r). (dataLen - length data) + length (chunks r))")
     (auto simp: Read_def split: list.splits if_splits)

declare readObject_loop.simps [simp del]

text \<open>The parameter \<^verbatim>\<open>segmentSize\<close> does not occur in the body of \<^verbatim>\<open>readObject\<close>.\<close>

definition readObject :: "constants \<Rightarrow> uint16 \<Rightarrow> Reader \<Rightarrow> (error + Object) \<times> Reader" where
  "readObject K segmentSize r =
     (case binary_Read 11 decode_ods r of
        (Inl err, r1) \<Rightarrow> (Inl err, r1)
      | (Inr ods, r1) \<Rightarrow>
          if ods_SequenceFlag ods AND NOT (firstInSequence K OR lastInSequence K) \<noteq> 0
          then (Inl (UnrecognizedSequenceFlag (ods_SequenceFlag ods)), r1)
          else (let dataLen = uint (Uint32 (ods_ObjectDataLength ods)) - 4
                in if dataLen < 0
                   then (Inl DataLengthErr, r1)
                   else (case readObject_loop (nat dataLen) [] r1 of
                           (Inl err, r2) \<Rightarrow> (Inl err, r2)
                         | (Inr data, r2) \<Rightarrow>
                             (Inr \<lparr>Object_ID = ods_ObjectID ods,
                                    Object_Version = ods_ObjectVersion ods,
                                    Object_First = (ods_SequenceFlag ods AND firstInSequence K \<noteq> 0),
                                    Object_Last = (ods_SequenceFlag ods AND lastInSequence K \<noteq> 0),
                                    Object_Width = ods_Width ods,
                                    Object_Height = ods_Height ods,
                                    Object_ObjectData = data\<rparr>, r2))))"

subsection \<open>ReadSegment\<close>

definition ReadSegment :: "constants \<Rightarrow> Reader \<Rightarrow> (error + Segment) \<times> Reader" where
  "ReadSegment K r =
     (case binary_Read 13 decode_header r of
        (Inl err, r1) \<Rightarrow>
          if err = EOF then (Inl err, r1) else (Inl (SegmentHeaderErr err), r1)
      | (Inr h, r1) \<Rightarrow>
          if h_MagicNumber h \<noteq> 0x5047
          then (Inl (MagicNumberErr (h_MagicNumber h)), r1)
          else if \<not> (h_SegmentType h = pcsType K \<or> h_SegmentType h = wdsType K
                     \<or> h_SegmentType h = pdsType K \<or> h_SegmentType h = odsType K
                     \<or> h_SegmentType h = endType K)
          then (Inl (UnrecognizedSegmentType (h_SegmentType h)), r1)
          else (let s = \<lparr>Segment_PresentationTime = Duration K (h_PresentationTime h),
                         Segment_DecodingTime = Duration K (h_DecodingTime h),
                         Segment_Data = None\<rparr>
                in if h_SegmentType h = pcsType K
                   then (case readPresentationComposition K (h_SegmentSize h) r1 of
                           (Inl err, r2) \<Rightarrow> (Inl (PCSErr err), r2)
                         | (Inr pc, r2) \<Rightarrow> (Inr (s\<lparr>Segment_Data := Some (PCS pc)\<rparr>), r2))
                   else if h_SegmentType h = wdsType K
                   then (case readWindows (h_SegmentSize h) r1 of
                           (Inl err, r2) \<Rightarrow> (Inl (WDSErr err), r2)
                         | (Inr w, r2) \<Rightarrow> (Inr (s\<lparr>Segment_Data := Some (WDS w)\<rparr>), r2))
                   else if h_SegmentType h = pdsType K
                   then (case readPalette (h_SegmentSize h) r1 of
                           (Inl err, r2) \<Rightarrow> (Inl (PDSErr err), r2)
                         | (Inr p, r2) \<Rightarrow> (Inr (s\<lparr>Segment_Data := Some (PDS p)\<rparr>), r2))
                   else if h_SegmentType h = odsType K
                   then (case readObject K (h_SegmentSize h) r1 of
                           (Inl err, r2) \<Rightarrow> (Inl (ODSErr err), r2)
                         | (Inr obj, r2) \<Rightarrow> (Inr (s\<lparr>Segment_Data := Some (ODS obj)\<rparr>), r2))
                   else if h_SegmentType h = endType K
                   then (Inr s, r1)
                   else (Inl (Panic (h_SegmentType h)), r1)))"

text \<open>
  An instance of the constants, for evaluating the reader on concrete streams: the values
  the PGS format assigns (segment types \<^verbatim>\<open>0x16\<close>, \<^verbatim>\<open>0x17\<close>, \<^verbatim>\<open>0x14\<close>, \<^verbatim>\<open>0x15\<close>,
  \<^verbatim>\<open>0x80\<close>; composition states \<^verbatim>\<open>0x00\<close>, \<^verbatim>\<open>0x40\<close>, \<^verbatim>\<open>0x80\<close>; flag bits \<^verbatim>\<open>0x80\<close> and
  \<^verbatim>\<open>0x40\<close>), and timestamps of 90 kHz ticks turned into nanoseconds.
\<close>

definition pgs :: constants where
  "pgs = \<lparr>pcsType = 0x16, wdsType = 0x17, pdsType = 0x14, odsType = 0x15, endType = 0x80,
          Normal = 0x00, AcquisitionPoint = 0x40, EpochStart = 0x80,
          pufTrue = 0x80, croppedForce = 0x40,
          firstInSequence = 0x80, lastInSequence = 0x40,
          Duration = (\<lambda>t. uint t * 1000000000 div 90000)\<rparr>"

text \<open>A source that delivers the bytes \<open>bs\<close> in one chunk and reports the end on its own.\<close>

definition source :: "byte list \<Rightarrow> Reader" where
  "source bs = \<lparr>chunks = [bs], eof_with_data = False\<rparr>"

subsection \<open>Positions in the input\<close>

text \<open>
  To state what a parser does with the bytes it is given, two functions name fields of the
  input by their position. \<open>stream_crop_flags K n s\<close> are the crop-flag bytes of the
  first \<open>n\<close> composition-object records of the body bytes \<open>s\<close>: a record is 8 bytes, its
  flag is byte 3, and a record whose flag is \<^verbatim>\<open>croppedForce\<close> is followed by an 8-byte crop.
  \<open>stream_entry_id k s\<close> is the ID of the 5-byte palette entry number \<open>k\<close> of the bytes
  \<open>s\<close>, counting from 0.
\<close>

fun stream_crop_flags :: "constants \<Rightarrow> nat \<Rightarrow> byte list \<Rightarrow> byte list" where
  "stream_crop_flags K 0 s = []"
| "stream_crop_flags K (Suc n) s =
     (let f = pco_ObjectCropped (decode_pcsCompositionObject (take 8 s))
      in f # stream_crop_flags K n (drop (if f = croppedForce K then 16 else 8) s))"

definition stream_entry_id :: "nat \<Rightarrow> byte list \<Rightarrow> byte" where
  "stream_entry_id k s = Entry_ID (decode_PaletteEntry (take 5 (drop (5 * k) s)))"

section \<open>Properties\<close>

subsection \<open>Reading a fixed number of bytes\<close>

text \<open>
  \<^verbatim>\<open>io.ReadFull\<close> depends on the bytes of the source only, not on how they are cut into
  chunks: it succeeds with the next \<open>m\<close> bytes when there are that many, and otherwise
  fails with \<^verbatim>\<open>io.EOF\<close> when there is none and with \<^verbatim>\<open>io.ErrUnexpectedEOF\<close> when there
  are some; either way the source has moved on by \<open>m\<close> bytes, or to its end.
\<close>

lemma Read_stream:
  "Read k r = (bs, e, r') \<Longrightarrow>
     stream r = bs @ stream r' \<and> length bs \<le> k \<and> eof_with_data r' = eof_with_data r"
  by (auto simp: Read_def stream_def split: list.splits if_splits)

lemma Read_error:
  "Read k r = (bs, Some e, r') \<Longrightarrow> e = EOF \<and> chunks r' = []"
  by (auto simp: Read_def split: list.splits if_splits)

lemma ReadFull_loop_inv:
  "ReadFull_loop m buf r = (buf', e, r') \<Longrightarrow> length buf \<le> m \<Longrightarrow>
     buf @ stream r = buf' @ stream r' \<and> length buf' \<le> m
     \<and> eof_with_data r' = eof_with_data r
     \<and> (length buf' < m \<longrightarrow> e = Some EOF \<and> chunks r' = [])"
proof (induction m buf r rule: ReadFull_loop.induct)
  case (1 m buf r)
  show ?case
  proof (cases "length buf < m")
    case False
    with "1.prems" show ?thesis by (simp add: ReadFull_loop.simps)
  next
    case True
    obtain bs e1 r1 where R: "Read (m - length buf) r = (bs, e1, r1)"
      by (cases "Read (m - length buf) r") auto
    note S = Read_stream [OF R]
    show ?thesis
    proof (cases e1)
      case None
      have len: "length (buf @ bs) \<le> m" using S True by auto
      from "1.prems"(1) True R None
      have "ReadFull_loop m (buf @ bs) r1 = (buf', e, r')"
        by (simp add: ReadFull_loop.simps [of m buf r])
      from "1.IH" [OF True R [symmetric] _ None this len] S
      show ?thesis by simp
    next
      case (Some err)
      from "1.prems"(1) True R Some
      have eq: "buf' = buf @ bs" "e = Some err" "r' = r1"
        by (simp_all add: ReadFull_loop.simps [of m buf r])
      from Read_error [OF R [unfolded Some]] S eq True show ?thesis
        by auto
    qed
  qed
qed

lemma stream_Nil: "chunks r = [] \<Longrightarrow> stream r = []"
  by (simp add: stream_def)

lemma ReadFull_fst:
  "fst (ReadFull m r) =
     (if m \<le> length (stream r) then Inr (take m (stream r))
      else Inl (if stream r = [] then EOF else ErrUnexpectedEOF))"
proof -
  obtain buf e r' where L: "ReadFull_loop m [] r = (buf, e, r')"
    by (cases "ReadFull_loop m [] r") auto
  from ReadFull_loop_inv [OF L] have
    I: "stream r = buf @ stream r'" "length buf \<le> m"
       "length buf < m \<longrightarrow> e = Some EOF \<and> chunks r' = []"
    by simp_all
  show ?thesis
  proof (cases "length buf < m")
    case True
    with I have "e = Some EOF" "stream r' = []" by (simp_all add: stream_Nil)
    with I True L show ?thesis by (auto simp: ReadFull_def)
  next
    case False
    with I have "length buf = m" by simp
    with I L show ?thesis by (auto simp: ReadFull_def)
  qed
qed

lemma ReadFull_snd:
  "stream (snd (ReadFull m r)) = drop m (stream r)"
  "eof_with_data (snd (ReadFull m r)) = eof_with_data r"
proof -
  obtain buf e r' where L: "ReadFull_loop m [] r = (buf, e, r')"
    by (cases "ReadFull_loop m [] r") auto
  from ReadFull_loop_inv [OF L] have
    I: "stream r = buf @ stream r'" "length buf \<le> m" "eof_with_data r' = eof_with_data r"
       "length buf < m \<longrightarrow> e = Some EOF \<and> chunks r' = []"
    by simp_all
  have S: "snd (ReadFull m r) = r'"
    using L by (auto simp: ReadFull_def Let_def split: option.splits)
  show "stream (snd (ReadFull m r)) = drop m (stream r)"
  proof (cases "length buf < m")
    case True
    with I have "stream r' = []" by (simp add: stream_Nil)
    with I True S show ?thesis by simp
  next
    case False
    with I have "length buf = m" by simp
    with I S show ?thesis by simp
  qed
  show "eof_with_data (snd (ReadFull m r)) = eof_with_data r"
    using S I by simp
qed

lemma binary_Read_eq:
  "binary_Read n d r =
     (if n \<le> length (stream r) then Inr (d (take n (stream r)))
      else Inl (if stream r = [] then EOF else ErrUnexpectedEOF),
      snd (ReadFull n r))"
proof -
  obtain x r' where R: "ReadFull n r = (x, r')" by (cases "ReadFull n r") auto
  with ReadFull_fst [of n r] show ?thesis
    by (auto simp: binary_Read_def)
qed

lemma binary_Read_ok:
  "n \<le> length (stream r) \<Longrightarrow>
     binary_Read n d r = (Inr (d (take n (stream r))), snd (ReadFull n r))"
  by (simp add: binary_Read_eq)

lemmas eval_defs =
  source_def stream_def pgs_def distinct_types_def field_def be_def
  decode_header_def decode_pcs_def decode_pcsCompositionObject_def
  decode_CompositionObjectCrop_def decode_wds_def decode_Window_def decode_pds_def
  decode_PaletteEntry_def decode_ods_def Uint32_def

lemmas eval_Read = binary_Read_def ReadFull_def ReadFull_loop.simps Read_def Let_def

subsection \<open>The end marker\<close>

text \<open>
  C10. For a segment whose header is well formed and carries the end-marker tag,
  \<^verbatim>\<open>ReadSegment\<close> returns a segment with the two timestamps and a \<^verbatim>\<open>nil\<close> payload,
  whatever body size the header declares, and leaves the source exactly 13 bytes further:
  bytes that follow the header are not consumed.
\<close>

theorem ReadSegment_end_marker:
  assumes "distinct_types K"
    and "13 \<le> length (stream r)"
    and "h = decode_header (take 13 (stream r))"
    and "h_MagicNumber h = 0x5047"
    and "h_SegmentType h = endType K"
  shows "\<exists>r'. ReadSegment K r =
           (Inr \<lparr>Segment_PresentationTime = Duration K (h_PresentationTime h),
                 Segment_DecodingTime = Duration K (h_DecodingTime h),
                 Segment_Data = None\<rparr>, r')
         \<and> stream r' = drop 13 (stream r)"
proof -
  from assms(1,5) have ne: "h_SegmentType h \<noteq> pcsType K" "h_SegmentType h \<noteq> wdsType K"
    "h_SegmentType h \<noteq> pdsType K" "h_SegmentType h \<noteq> odsType K"
    by (auto simp: distinct_types_def)
  have "ReadSegment K r =
          (Inr \<lparr>Segment_PresentationTime = Duration K (h_PresentationTime h),
                Segment_DecodingTime = Duration K (h_DecodingTime h),
                Segment_Data = None\<rparr>, snd (ReadFull 13 r))"
    using assms(2-5) ne by (simp add: ReadSegment_def binary_Read_ok Let_def)
  then show ?thesis by (simp add: ReadFull_snd)
qed

text \<open>An end marker that declares a body of 5 bytes, followed by 5 bytes.\<close>

theorem ReadSegment_end_marker_witness:
  "distinct_types pgs
   \<and> 13 \<le> length (stream (source [0x50, 0x47, 0, 0, 0, 1, 0, 0, 0, 2, 0x80, 0, 5, 9, 9, 9, 9, 9]))
   \<and> (\<exists>r'. ReadSegment pgs (source [0x50, 0x47, 0, 0, 0, 1, 0, 0, 0, 2, 0x80, 0, 5, 9, 9, 9, 9, 9]) =
           (Inr \<lparr>Segment_PresentationTime = 11111, Segment_DecodingTime = 22222,
                 Segment_Data = None\<rparr>, r')
         \<and> stream r' = [9, 9, 9, 9, 9])"
  using ReadSegment_end_marker [of pgs "source [0x50, 0x47, 0, 0, 0, 1, 0, 0, 0, 2, 0x80, 0, 5, 9, 9, 9, 9, 9]"
      "decode_header (take 13 (stream (source [0x50, 0x47, 0, 0, 0, 1, 0, 0, 0, 2, 0x80, 0, 5, 9, 9, 9, 9, 9])))"]
  by (simp add: eval_defs)

subsection \<open>End of the stream and malformed headers\<close>

lemma ReadSegment_short:
  assumes "stream r \<noteq> []" "length (stream r) < 13"
  shows "fst (ReadSegment K r) = Inl (SegmentHeaderErr ErrUnexpectedEOF)"
  using assms by (simp add: ReadSegment_def binary_Read_eq)

lemma ReadSegment_empty:
  assumes "stream r = []"
  shows "fst (ReadSegment K r) = Inl EOF"
  using assms by (simp add: ReadSegment_def binary_Read_eq)

lemma ReadSegment_not_EOF:
  assumes "13 \<le> length (stream r)"
  shows "fst (ReadSegment K r) \<noteq> Inl EOF"
proof -
  obtain h r1 where H: "binary_Read 13 decode_header r = (Inr h, r1)"
    using assms by (simp add: binary_Read_eq)
  show ?thesis
    unfolding ReadSegment_def H
    by (simp add: Let_def split: prod.splits sum.splits)
qed

lemma ReadSegment_magic:
  assumes "13 \<le> length (stream r)" "h = decode_header (take 13 (stream r))"
    "h_MagicNumber h \<noteq> 0x5047"
  shows "fst (ReadSegment K r) = Inl (MagicNumberErr (h_MagicNumber h))"
  using assms by (simp add: ReadSegment_def binary_Read_eq)

lemma ReadSegment_type:
  assumes "13 \<le> length (stream r)" "h = decode_header (take 13 (stream r))"
    "h_MagicNumber h = 0x5047"
    "h_SegmentType h \<notin> {pcsType K, wdsType K, pdsType K, odsType K, endType K}"
  shows "fst (ReadSegment K r) = Inl (UnrecognizedSegmentType (h_SegmentType h))"
  using assms by (simp add: ReadSegment_def binary_Read_eq)

text \<open>
  C6. \<^verbatim>\<open>ReadSegment\<close> returns the bare \<^verbatim>\<open>io.EOF\<close> exactly when the source has no byte
  left. A source that ends inside the 13-byte header gives \<^verbatim>\<open>io.ErrUnexpectedEOF\<close>
  wrapped as a segment-header error, a magic number other than \<^verbatim>\<open>0x5047\<close> gives the
  magic-number error, and a type tag outside the five known ones gives the
  unrecognized-type error: none of them is \<^verbatim>\<open>io.EOF\<close>.
\<close>

theorem ReadSegment_EOF:
  "(fst (ReadSegment K r) = Inl EOF \<longleftrightarrow> stream r = [])
   \<and> (stream r \<noteq> [] \<and> length (stream r) < 13 \<longrightarrow>
        fst (ReadSegment K r) = Inl (SegmentHeaderErr ErrUnexpectedEOF))
   \<and> (13 \<le> length (stream r) \<and> h = decode_header (take 13 (stream r)) \<and>
        h_MagicNumber h \<noteq> 0x5047 \<longrightarrow>
        fst (ReadSegment K r) = Inl (MagicNumberErr (h_MagicNumber h)))
   \<and> (13 \<le> length (stream r) \<and> h = decode_header (take 13 (stream r)) \<and>
        h_MagicNumber h = 0x5047 \<and>
        h_SegmentType h \<notin> {pcsType K, wdsType K, pdsType K, odsType K, endType K} \<longrightarrow>
        fst (ReadSegment K r) = Inl (UnrecognizedSegmentType (h_SegmentType h)))"
proof -
  have 1: "fst (ReadSegment K r) = Inl EOF \<longleftrightarrow> stream r = []"
  proof
    assume E: "fst (ReadSegment K r) = Inl EOF"
    show "stream r = []"
    proof (rule ccontr)
      assume N: "stream r \<noteq> []"
      show False
      proof (cases "length (stream r) < 13")
        case True
        from ReadSegment_short [OF N True, of K] E show False by simp
      next
        case False
        then have "13 \<le> length (stream r)" by simp
        from ReadSegment_not_EOF [OF this, of K] E show False by simp
      qed
    qed
  next
    assume "stream r = []"
    then show "fst (ReadSegment K r) = Inl EOF" by (rule ReadSegment_empty)
  qed
  have 2: "stream r \<noteq> [] \<and> length (stream r) < 13 \<longrightarrow>
        fst (ReadSegment K r) = Inl (SegmentHeaderErr ErrUnexpectedEOF)"
    by (simp add: ReadSegment_short)
  have 3: "13 \<le> length (stream r) \<and> h = decode_header (take 13 (stream r)) \<and>
        h_MagicNumber h \<noteq> 0x5047 \<longrightarrow>
        fst (ReadSegment K r) = Inl (MagicNumberErr (h_MagicNumber h))"
    using ReadSegment_magic [of r h K] by blast
  have 4: "13 \<le> length (stream r) \<and> h = decode_header (take 13 (stream r)) \<and>
        h_MagicNumber h = 0x5047 \<and>
        h_SegmentType h \<notin> {pcsType K, wdsType K, pdsType K, odsType K, endType K} \<longrightarrow>
        fst (ReadSegment K r) = Inl (UnrecognizedSegmentType (h_SegmentType h))"
    using ReadSegment_type [of r h K] by blast
  from 1 2 3 4 show ?thesis by blast
qed

text \<open>An empty source, a 3-byte source, a wrong magic number and an unknown type tag.\<close>

theorem ReadSegment_EOF_witness:
  "fst (ReadSegment pgs (source [])) = Inl EOF
   \<and> fst (ReadSegment pgs (source [0x50, 0x47, 0])) = Inl (SegmentHeaderErr ErrUnexpectedEOF)
   \<and> fst (ReadSegment pgs (source [0x50, 0x48, 0, 0, 0, 0, 0, 0, 0, 0, 0x80, 0, 0])) =
       Inl (MagicNumberErr 0x5048)
   \<and> fst (ReadSegment pgs (source [0x50, 0x47, 0, 0, 0, 0, 0, 0, 0, 0, 0x81, 0, 0])) =
       Inl (UnrecognizedSegmentType 0x81)"
  using ReadSegment_EOF [of pgs "source []"]
    ReadSegment_EOF [of pgs "source [0x50, 0x47, 0]"]
    ReadSegment_EOF [of pgs "source [0x50, 0x48, 0, 0, 0, 0, 0, 0, 0, 0, 0x80, 0, 0]"
      "decode_header (take 13 (stream (source [0x50, 0x48, 0, 0, 0, 0, 0, 0, 0, 0, 0x80, 0, 0])))"]
    ReadSegment_EOF [of pgs "source [0x50, 0x47, 0, 0, 0, 0, 0, 0, 0, 0, 0x81, 0, 0]"
      "decode_header (take 13 (stream (source [0x50, 0x47, 0, 0, 0, 0, 0, 0, 0, 0, 0x81, 0, 0])))"]
  by (simp add: eval_defs)

subsection \<open>The unreachable branch\<close>

text \<open>
  The \<^verbatim>\<open>default\<close> branch of the second \<^verbatim>\<open>switch\<close> of \<^verbatim>\<open>ReadSegment\<close> is never taken:
  the first \<^verbatim>\<open>switch\<close> has already rejected every other type tag.
\<close>

lemma ReadSegment_no_panic: "fst (ReadSegment K r) \<noteq> Inl (Panic t)"
proof (cases "13 \<le> length (stream r)")
  case False
  then show ?thesis by (simp add: ReadSegment_def binary_Read_eq)
next
  case True
  then obtain h r1 where H: "binary_Read 13 decode_header r = (Inr h, r1)"
    by (simp add: binary_Read_eq)
  show ?thesis
    unfolding ReadSegment_def H
    by (simp add: Let_def split: prod.splits sum.splits)
qed

subsection \<open>The declared body size of an object segment\<close>

lemma field_take: "off + len \<le> n \<Longrightarrow> field off len (take n bs) = (field off len bs :: 'a::len word)"
  by (simp add: field_def drop_take min_def)

lemma header_fields_take:
  assumes "take 11 b1 = take 11 b2"
  shows "h_MagicNumber (decode_header b1) = h_MagicNumber (decode_header b2)"
    and "h_PresentationTime (decode_header b1) = h_PresentationTime (decode_header b2)"
    and "h_DecodingTime (decode_header b1) = h_DecodingTime (decode_header b2)"
    and "h_SegmentType (decode_header b1) = h_SegmentType (decode_header b2)"
proof -
  have F: "\<And>off len. off + len \<le> 11 \<Longrightarrow>
      (field off len b1 :: 'a::len word) = field off len b2"
  proof -
    fix off len :: nat
    assume "off + len \<le> 11"
    then have "(field off len b1 :: 'a word) = field off len (take 11 b1)"
      and "(field off len b2 :: 'a word) = field off len (take 11 b2)"
      by (simp_all add: field_take)
    with assms show "(field off len b1 :: 'a word) = field off len b2" by simp
  qed
  show "h_MagicNumber (decode_header b1) = h_MagicNumber (decode_header b2)"
    and "h_PresentationTime (decode_header b1) = h_PresentationTime (decode_header b2)"
    and "h_DecodingTime (decode_header b1) = h_DecodingTime (decode_header b2)"
    and "h_SegmentType (decode_header b1) = h_SegmentType (decode_header b2)"
    by (simp_all add: decode_header_def F)
qed

lemma readObject_segmentSize: "readObject K s1 r = readObject K s2 r"
  by (simp add: readObject_def)

lemma ReadSegment_ods:
  assumes "distinct_types K"
    and "ReadFull 13 r = (Inr b, r')"
    and "h_SegmentType (decode_header b) = odsType K"
  shows "ReadSegment K r =
     (if h_MagicNumber (decode_header b) \<noteq> 0x5047
      then (Inl (MagicNumberErr (h_MagicNumber (decode_header b))), r')
      else (case readObject K 0 r' of
              (Inl err, r2) \<Rightarrow> (Inl (ODSErr err), r2)
            | (Inr obj, r2) \<Rightarrow>
                (Inr \<lparr>Segment_PresentationTime = Duration K (h_PresentationTime (decode_header b)),
                      Segment_DecodingTime = Duration K (h_DecodingTime (decode_header b)),
                      Segment_Data = Some (ODS obj)\<rparr>, r2)))"
proof -
  from assms(1,3) have ne: "h_SegmentType (decode_header b) \<noteq> pcsType K"
    "h_SegmentType (decode_header b) \<noteq> wdsType K"
    "h_SegmentType (decode_header b) \<noteq> pdsType K"
    by (auto simp: distinct_types_def)
  have R: "readObject K (h_SegmentSize (decode_header b)) r' = readObject K 0 r'"
    by (rule readObject_segmentSize)
  show ?thesis
    using assms(2,3) ne
    by (simp add: ReadSegment_def binary_Read_def Let_def R split: prod.splits sum.splits)
qed

text \<open>
  C9. \<^verbatim>\<open>readObject\<close> does not look at the body size the header declares: its result and
  the state it leaves the source in are the same for every value of \<^verbatim>\<open>segmentSize\<close>.
  Hence two inputs whose 13-byte headers carry the object-segment tag and differ in the
  two size bytes only, and that continue in the same way, are read by \<^verbatim>\<open>ReadSegment\<close>
  to the same result and the same final state of the source.
\<close>

theorem readObject_ignores_segmentSize:
  "readObject K s1 r = readObject K s2 r
   \<and> (distinct_types K \<and> ReadFull 13 r1 = (Inr b1, r') \<and> ReadFull 13 r2 = (Inr b2, r')
        \<and> take 11 b1 = take 11 b2 \<and> h_SegmentType (decode_header b1) = odsType K
      \<longrightarrow> ReadSegment K r1 = ReadSegment K r2)"
proof -
  have "ReadSegment K r1 = ReadSegment K r2"
    if D: "distinct_types K" and R1: "ReadFull 13 r1 = (Inr b1, r')"
      and R2: "ReadFull 13 r2 = (Inr b2, r')" and T: "take 11 b1 = take 11 b2"
      and O: "h_SegmentType (decode_header b1) = odsType K"
  proof -
    note F = header_fields_take [OF T]
    from O F(4) have O2: "h_SegmentType (decode_header b2) = odsType K" by simp
    show ?thesis
      unfolding ReadSegment_ods [OF D R1 O] ReadSegment_ods [OF D R2 O2] F(1) F(2) F(3)
      by (rule refl)
  qed
  then show ?thesis by (simp add: readObject_segmentSize)
qed

text \<open>
  An object segment with total data length 6, hence 13 body bytes, is accepted with a
  declared body size of 0 and of 65535 alike.
\<close>

theorem readObject_ignores_segmentSize_witness:
  "ReadSegment pgs
     (source [0x50, 0x47, 0, 0, 0, 0, 0, 0, 0, 0, 0x15, 0, 0,
              0, 1, 0, 0xC0, 0, 0, 6, 0, 1, 0, 1, 0xAA, 0xBB]) =
   ReadSegment pgs
     (source [0x50, 0x47, 0, 0, 0, 0, 0, 0, 0, 0, 0x15, 0xFF, 0xFF,
              0, 1, 0, 0xC0, 0, 0, 6, 0, 1, 0, 1, 0xAA, 0xBB])
   \<and> fst (ReadSegment pgs
     (source [0x50, 0x47, 0, 0, 0, 0, 0, 0, 0, 0, 0x15, 0, 0,
              0, 1, 0, 0xC0, 0, 0, 6, 0, 1, 0, 1, 0xAA, 0xBB])) =
     Inr \<lparr>Segment_PresentationTime = 0, Segment_DecodingTime = 0,
          Segment_Data = Some (ODS \<lparr>Object_ID = 1, Object_Version = 0, Object_First = True,
            Object_Last = True, Object_Width = 1, Object_Height = 1,
            Object_ObjectData = [0xAA, 0xBB]\<rparr>)\<rparr>"
proof -
  let ?body = "[0, 1, 0, 0xC0, 0, 0, 6, 0, 1, 0, 1, 0xAA, 0xBB] :: byte list"
  let ?h1 = "[0x50, 0x47, 0, 0, 0, 0, 0, 0, 0, 0, 0x15, 0, 0] :: byte list"
  let ?h2 = "[0x50, 0x47, 0, 0, 0, 0, 0, 0, 0, 0, 0x15, 0xFF, 0xFF] :: byte list"
  have 1: "ReadFull 13 (source (?h1 @ ?body)) = (Inr ?h1, source ?body)"
    by (simp add: eval_Read source_def)
  have 2: "ReadFull 13 (source (?h2 @ ?body)) = (Inr ?h2, source ?body)"
    by (simp add: eval_Read source_def)
  have 3: "distinct_types pgs" by (simp add: eval_defs)
  have 4: "h_SegmentType (decode_header ?h1) = odsType pgs" by (simp add: eval_defs)
  have 5: "fst (ReadSegment pgs (source (?h1 @ ?body))) =
     Inr \<lparr>Segment_PresentationTime = 0, Segment_DecodingTime = 0,
          Segment_Data = Some (ODS \<lparr>Object_ID = 1, Object_Version = 0, Object_First = True,
            Object_Last = True, Object_Width = 1, Object_Height = 1,
            Object_ObjectData = [0xAA, 0xBB]\<rparr>)\<rparr>"
    by (simp add: ReadSegment_def readObject_def readObject_loop.simps eval_Read eval_defs)
  from readObject_ignores_segmentSize [of pgs 0 "source []" 0 "source (?h1 @ ?body)" ?h1
      "source ?body" "source (?h2 @ ?body)" ?h2] 1 2 3 4 5
  show ?thesis by simp
qed

subsection \<open>Window segments\<close>

lemma binary_Read_Inr:
  assumes "binary_Read n d r = (Inr x, r1)"
  shows "n \<le> length (stream r)" and "x = d (take n (stream r))"
    and "stream r1 = drop n (stream r)" and "eof_with_data r1 = eof_with_data r"
proof -
  from assms have R: "r1 = snd (ReadFull n r)" by (simp add: binary_Read_eq)
  from assms show "n \<le> length (stream r)"
    by (simp add: binary_Read_eq split: if_splits)
  then show "x = d (take n (stream r))" using assms by (simp add: binary_Read_eq)
  show "stream r1 = drop n (stream r)" by (simp add: R ReadFull_snd)
  show "eof_with_data r1 = eof_with_data r" by (simp add: R ReadFull_snd)
qed

lemma readWindows_loop_length:
  "readWindows_loop c i ws r = (Inr ws', r') \<Longrightarrow> i \<le> unat c \<Longrightarrow>
     length ws' = length ws + (unat c - i) \<and> stream r' = drop (9 * (unat c - i)) (stream r)"
proof (induction c i ws r rule: readWindows_loop.induct)
  case (1 c i ws r)
  show ?case
  proof (cases "i < unat c")
    case False
    with "1.prems" show ?thesis by (simp add: readWindows_loop.simps [of c i ws r])
  next
    case True
    from "1.prems"(1) True obtain w r1 where
      B: "binary_Read 9 decode_Window r = (Inr w, r1)"
      and L: "readWindows_loop c (i + 1) (ws @ [w]) r1 = (Inr ws', r')"
      by (auto simp: readWindows_loop.simps [of c i ws r] split: prod.splits sum.splits)
    from True have "i + 1 \<le> unat c" by simp
    from "1.IH" [OF True B [symmetric] refl L this] binary_Read_Inr(3) [OF B] True
    show ?thesis by (simp add: Suc_diff_Suc [symmetric] add.commute del: Suc_diff_Suc)
  qed
qed

lemma window_size_eq:
  "(segmentSize = (ucast (c :: byte) * 9 + 1 :: uint16)) \<longleftrightarrow> unat segmentSize = 9 * unat c + 1"
proof -
  have b: "unat c < 256" using unsigned_less [of c, where 'a = nat] by simp
  then have U: "unat (ucast c :: uint16) = unat c"
    by (simp add: unsigned_ucast_eq take_bit_nat_eq_self)
  have "unat (ucast c * 9 + 1 :: uint16) = (unat (ucast c :: uint16) * 9 + 1) mod 65536"
    by (simp add: unat_word_ariths mod_simps)
  with U b have "unat (ucast c * 9 + 1 :: uint16) = 9 * unat c + 1"
    by simp
  then show ?thesis by (metis word_unat_eq_iff)
qed

text \<open>
  C4. Once the window count \<open>c\<close> has been read, a declared body size other than
  \<open>9 * c + 1\<close> makes \<^verbatim>\<open>readWindows\<close> fail with the size-mismatch error while the source
  is one byte further, so before any window record is read. A body size of 1 with a count
  of 0 gives the empty list. When \<^verbatim>\<open>readWindows\<close> succeeds it returns exactly \<open>c\<close>
  windows and has consumed the declared number of bytes.
\<close>

theorem readWindows_size:
  assumes "1 \<le> length (stream r)"
    and "c = wds_WindowCount (decode_wds (take 1 (stream r)))"
  shows "(unat segmentSize \<noteq> 9 * unat c + 1 \<longrightarrow>
            (\<exists>r1. readWindows segmentSize r =
                     (Inl (WindowCountMismatch segmentSize (ucast c * 9 + 1) c), r1)
                   \<and> stream r1 = drop 1 (stream r)))
       \<and> (segmentSize = 1 \<and> c = 0 \<longrightarrow>
            (\<exists>r1. readWindows segmentSize r = (Inr [], r1) \<and> stream r1 = drop 1 (stream r)))
       \<and> (\<forall>ws r'. readWindows segmentSize r = (Inr ws, r') \<longrightarrow>
            length ws = unat c \<and> unat segmentSize = 9 * unat c + 1
            \<and> stream r' = drop (unat segmentSize) (stream r))"
proof -
  let ?r1 = "snd (ReadFull 1 r)"
  have B: "binary_Read 1 decode_wds r = (Inr \<lparr>wds_WindowCount = c\<rparr>, ?r1)"
    using assms by (simp add: binary_Read_ok decode_wds_def)
  have S: "stream ?r1 = drop 1 (stream r)" by (simp add: ReadFull_snd)
  have 1: "unat segmentSize \<noteq> 9 * unat c + 1 \<longrightarrow>
            (\<exists>r1. readWindows segmentSize r =
                     (Inl (WindowCountMismatch segmentSize (ucast c * 9 + 1) c), r1)
                   \<and> stream r1 = drop 1 (stream r))"
    unfolding readWindows_def B using S by (simp add: window_size_eq)
  have 2: "segmentSize = 1 \<and> c = 0 \<longrightarrow>
            (\<exists>r1. readWindows segmentSize r = (Inr [], r1) \<and> stream r1 = drop 1 (stream r))"
    unfolding readWindows_def B using S by (simp add: readWindows_loop.simps)
  have 3: "length ws = unat c \<and> unat segmentSize = 9 * unat c + 1
            \<and> stream r' = drop (unat segmentSize) (stream r)"
    if W: "readWindows segmentSize r = (Inr ws, r')" for ws r'
  proof -
    from W have E: "unat segmentSize = 9 * unat c + 1"
      and L: "readWindows_loop c 0 [] ?r1 = (Inr ws, r')"
      unfolding readWindows_def B by (simp_all add: window_size_eq split: if_splits)
    from readWindows_loop_length [OF L] S E show ?thesis by (simp add: add.commute)
  qed
  from 1 2 3 show ?thesis by blast
qed

text \<open>
  Two windows announced in a body of 10 bytes, no window in a body of 1 byte, and one window
  in a body of 10 bytes.
\<close>

theorem readWindows_size_witness:
  "(\<exists>r1. readWindows 10 (source [2, 1, 0, 0, 0, 0, 0, 8, 0, 8]) =
            (Inl (WindowCountMismatch 10 19 2), r1)
          \<and> stream r1 = [1, 0, 0, 0, 0, 0, 8, 0, 8])
   \<and> (\<exists>r1. readWindows 1 (source [0, 7]) = (Inr [], r1) \<and> stream r1 = [7])
   \<and> (\<exists>ws r'. readWindows 10 (source [1, 5, 0, 1, 0, 2, 0, 3, 0, 4]) = (Inr ws, r')
          \<and> length ws = 1 \<and> stream r' = [])"
proof -
  have "readWindows 10 (source [1, 5, 0, 1, 0, 2, 0, 3, 0, 4]) =
      (Inr [\<lparr>Window_ID = 5, Window_X = 1, Window_Y = 2, Window_Width = 3, Window_Height = 4\<rparr>],
       \<lparr>chunks = [], eof_with_data = False\<rparr>)"
    by (simp add: readWindows_def readWindows_loop.simps eval_Read eval_defs)
  with readWindows_size [of "source [2, 1, 0, 0, 0, 0, 0, 8, 0, 8]" 2 10]
    readWindows_size [of "source [0, 7]" 0 1]
    readWindows_size [of "source [1, 5, 0, 1, 0, 2, 0, 3, 0, 4]" 1 10]
  show ?thesis by (simp add: eval_defs)
qed

subsection \<open>Palette segments\<close>

lemma palette_mod: "(segmentSize mod 5 = (2 :: uint16)) \<longleftrightarrow> unat segmentSize mod 5 = 2"
proof -
  have "(segmentSize mod 5 = 2) \<longleftrightarrow> unat (segmentSize mod 5) = unat (2 :: uint16)"
    by (rule word_unat_eq_iff)
  then show ?thesis by (simp add: unat_mod)
qed

lemma palette_n:
  assumes "unat (segmentSize :: uint16) mod 5 = 2"
  shows "unat ((segmentSize - 2) div 5) = (unat segmentSize - 2) div 5"
proof -
  from assms have "2 \<le> unat segmentSize" by presburger
  then have "(2 :: uint16) \<le> segmentSize" by (simp add: word_le_nat_alt)
  then have "unat (segmentSize - 2) = unat segmentSize - 2" by (simp add: unat_sub)
  then show ?thesis by (simp add: unat_div)
qed

lemma readPalette_loop_done:
  "\<not> i < unat n \<Longrightarrow> readPalette_loop n i es ids r = (Inr es, r)"
  by (subst readPalette_loop.simps) simp

lemma readPalette_loop_step:
  "i < unat n \<Longrightarrow> binary_Read 5 decode_PaletteEntry r = (Inr e, r1) \<Longrightarrow>
     readPalette_loop n i es ids r =
       (if Entry_ID e \<in> ids then (Inl (PaletteIDReused i n (Entry_ID e)), r1)
        else readPalette_loop n (i + 1) (es @ [e]) (insert (Entry_ID e) ids) r1)"
  by (subst readPalette_loop.simps) simp

lemma readPalette_loop_inv:
  "readPalette_loop n i es ids r = (Inr es', r') \<Longrightarrow> i \<le> unat n \<Longrightarrow>
   ids = Entry_ID ` set es \<Longrightarrow> distinct (map Entry_ID es) \<Longrightarrow>
     length es' = length es + (unat n - i) \<and> distinct (map Entry_ID es')
     \<and> stream r' = drop (5 * (unat n - i)) (stream r)"
proof (induction n i es ids r rule: readPalette_loop.induct)
  case (1 n i es ids r)
  show ?case
  proof (cases "i < unat n")
    case False
    with "1.prems" show ?thesis by (simp add: readPalette_loop_done)
  next
    case True
    from "1.prems"(1) True obtain e r1 where
      B: "binary_Read 5 decode_PaletteEntry r = (Inr e, r1)"
      and N: "Entry_ID e \<notin> ids"
      and L: "readPalette_loop n (i + 1) (es @ [e]) (insert (Entry_ID e) ids) r1 = (Inr es', r')"
      by (auto simp: readPalette_loop.simps [of n i es ids r] split: prod.splits sum.splits if_splits)
    from True have le: "i + 1 \<le> unat n" by simp
    have ids: "insert (Entry_ID e) ids = Entry_ID ` set (es @ [e])"
      using "1.prems"(3) by auto
    have dist: "distinct (map Entry_ID (es @ [e]))"
      using "1.prems"(3,4) N by auto
    from "1.IH" [OF True B [symmetric] refl N L le ids dist] binary_Read_Inr(3) [OF B] True
    show ?thesis by (simp add: Suc_diff_Suc [symmetric] add.commute del: Suc_diff_Suc)
  qed
qed

lemma stream_entry_id_drop: "stream_entry_id k (drop 5 s) = stream_entry_id (Suc k) s"
  by (simp add: stream_entry_id_def add.commute)

lemma readPalette_loop_dup:
  "i < unat n \<Longrightarrow> j + d = i \<Longrightarrow> 5 * (d + 1) \<le> length (stream r) \<Longrightarrow>
   (\<forall>k<d. stream_entry_id k (stream r) \<notin> seen
          \<and> (\<forall>k'<k. stream_entry_id k' (stream r) \<noteq> stream_entry_id k (stream r))) \<Longrightarrow>
   (stream_entry_id d (stream r) \<in> seen
     \<or> (\<exists>k<d. stream_entry_id k (stream r) = stream_entry_id d (stream r))) \<Longrightarrow>
   \<exists>r'. readPalette_loop n j es seen r =
           (Inl (PaletteIDReused i n (stream_entry_id d (stream r))), r')
        \<and> stream r' = drop (5 * (d + 1)) (stream r)"
proof (induction d arbitrary: j es seen r)
  case 0
  let ?r1 = "snd (ReadFull 5 r)"
  from 0 have len: "5 \<le> length (stream r)" by simp
  have B: "binary_Read 5 decode_PaletteEntry r = (Inr (decode_PaletteEntry (take 5 (stream r))), ?r1)"
    using len by (rule binary_Read_ok)
  have I: "Entry_ID (decode_PaletteEntry (take 5 (stream r))) = stream_entry_id 0 (stream r)"
    by (simp add: stream_entry_id_def)
  from 0 have "j < unat n" "j = i" "stream_entry_id 0 (stream r) \<in> seen" by simp_all
  then show ?case
    by (simp add: readPalette_loop_step [OF _ B] I ReadFull_snd)
next
  case (Suc d)
  let ?s = "stream r"
  let ?r1 = "snd (ReadFull 5 r)"
  let ?e = "decode_PaletteEntry (take 5 ?s)"
  from Suc.prems have len: "5 \<le> length ?s" by simp
  have B: "binary_Read 5 decode_PaletteEntry r = (Inr ?e, ?r1)"
    using len by (rule binary_Read_ok)
  have I: "Entry_ID ?e = stream_entry_id 0 ?s"
    by (simp add: stream_entry_id_def)
  have S1: "stream ?r1 = drop 5 ?s" by (simp add: ReadFull_snd)
  from Suc.prems have j: "j < unat n" "(j + 1) + d = i" by simp_all
  from Suc.prems(4) have new: "stream_entry_id 0 ?s \<notin> seen" by simp
  have step: "readPalette_loop n j es seen r =
      readPalette_loop n (j + 1) (es @ [?e]) (insert (stream_entry_id 0 ?s) seen) ?r1"
    using j(1) new by (simp add: readPalette_loop_step [OF _ B] I)
  have len1: "5 * (d + 1) \<le> length (stream ?r1)"
    using Suc.prems(3) by (simp add: S1)
  have fresh: "\<forall>k<d. stream_entry_id k (stream ?r1) \<notin> insert (stream_entry_id 0 ?s) seen
          \<and> (\<forall>k'<k. stream_entry_id k' (stream ?r1) \<noteq> stream_entry_id k (stream ?r1))"
  proof (intro allI impI conjI)
    fix k assume k: "k < d"
    with Suc.prems(4) have a: "stream_entry_id (Suc k) ?s \<notin> seen"
      and b: "\<forall>k'<Suc k. stream_entry_id k' ?s \<noteq> stream_entry_id (Suc k) ?s"
      by simp_all
    from b have "stream_entry_id 0 ?s \<noteq> stream_entry_id (Suc k) ?s" by simp
    with a show "stream_entry_id k (stream ?r1) \<notin> insert (stream_entry_id 0 ?s) seen"
      by (simp add: S1 stream_entry_id_drop)
    fix k' assume "k' < k"
    with b show "stream_entry_id k' (stream ?r1) \<noteq> stream_entry_id k (stream ?r1)"
      by (simp add: S1 stream_entry_id_drop)
  qed
  have rep: "stream_entry_id d (stream ?r1) \<in> insert (stream_entry_id 0 ?s) seen
     \<or> (\<exists>k<d. stream_entry_id k (stream ?r1) = stream_entry_id d (stream ?r1))"
  proof -
    from Suc.prems(5) consider "stream_entry_id (Suc d) ?s \<in> seen"
      | k where "k < Suc d" "stream_entry_id k ?s = stream_entry_id (Suc d) ?s"
      by blast
    then show ?thesis
    proof cases
      case 1
      then show ?thesis by (simp add: S1 stream_entry_id_drop)
    next
      case 2
      show ?thesis
      proof (cases k)
        case 0
        with 2 show ?thesis by (simp add: S1 stream_entry_id_drop)
      next
        case (Suc k0)
        with 2 have "k0 < d" "stream_entry_id k0 (stream ?r1) = stream_entry_id d (stream ?r1)"
          by (simp_all add: S1 stream_entry_id_drop)
        then show ?thesis by blast
      qed
    qed
  qed
  from Suc.IH [OF Suc.prems(1) j(2) len1 fresh rep, of "es @ [?e]"]
  show ?case
    by (simp add: step S1 stream_entry_id_drop add.commute)
qed


text \<open>
  C3. A declared body size that is not 2 modulo 5 makes \<^verbatim>\<open>readPalette\<close> fail with the
  invalid-size error and leaves the source as it was: no byte is read. When
  \<^verbatim>\<open>readPalette\<close> succeeds, the size is 2 modulo 5, the palette has exactly
  \<open>(size - 2) div 5\<close> entries and the declared number of bytes has been consumed. Size 6
  fails; size 7 succeeds with one entry when 7 bytes are there; size 2 succeeds with no
  entry when 2 bytes are there.
\<close>

theorem readPalette_size:
  "(unat segmentSize mod 5 \<noteq> 2 \<longrightarrow>
      readPalette segmentSize r = (Inl (InvalidSegmentSize segmentSize), r))
   \<and> (\<forall>p r'. readPalette segmentSize r = (Inr p, r') \<longrightarrow>
        unat segmentSize mod 5 = 2
        \<and> length (Palette_Entries p) = (unat segmentSize - 2) div 5
        \<and> stream r' = drop (unat segmentSize) (stream r))
   \<and> readPalette 6 r = (Inl (InvalidSegmentSize 6), r)
   \<and> (7 \<le> length (stream r) \<longrightarrow>
        (\<exists>p r'. readPalette 7 r = (Inr p, r') \<and> length (Palette_Entries p) = 1))
   \<and> (2 \<le> length (stream r) \<longrightarrow>
        (\<exists>p r'. readPalette 2 r = (Inr p, r') \<and> Palette_Entries p = []))"
proof -
  have 1: "readPalette sz r = (Inl (InvalidSegmentSize sz), r)" if "unat sz mod 5 \<noteq> 2" for sz
    using that by (simp add: readPalette_def palette_mod)
  have 2: "unat segmentSize mod 5 = 2
        \<and> length (Palette_Entries p) = (unat segmentSize - 2) div 5
        \<and> stream r' = drop (unat segmentSize) (stream r)"
    if P: "readPalette segmentSize r = (Inr p, r')" for p r'
  proof -
    from P have M: "unat segmentSize mod 5 = 2"
      by (simp add: readPalette_def palette_mod split: if_splits)
    with P obtain pds r1 es where
      B: "binary_Read 2 decode_pds r = (Inr pds, r1)"
      and L: "readPalette_loop ((segmentSize - 2) div 5) 0 [] {} r1 = (Inr es, r')"
      and E: "Palette_Entries p = es"
      by (auto simp: readPalette_def palette_mod split: prod.splits sum.splits)
    from readPalette_loop_inv [OF L] have
      "length es = (unat segmentSize - 2) div 5"
      "stream r' = drop (5 * ((unat segmentSize - 2) div 5)) (stream r1)"
      by (simp_all add: palette_n [OF M])
    moreover have "5 * ((unat segmentSize - 2) div 5) + 2 = unat segmentSize"
      using M by presburger
    ultimately show ?thesis
      using M E binary_Read_Inr(3) [OF B] by simp
  qed
  have 3: "readPalette 6 r = (Inl (InvalidSegmentSize 6), r)"
    by (rule 1) simp
  have 4: "\<exists>p r'. readPalette 7 r = (Inr p, r') \<and> length (Palette_Entries p) = 1"
    if len: "7 \<le> length (stream r)"
  proof -
    let ?r1 = "snd (ReadFull 2 r)"
    let ?r2 = "snd (ReadFull 5 ?r1)"
    have B: "binary_Read 2 decode_pds r = (Inr (decode_pds (take 2 (stream r))), ?r1)"
      using len by (simp add: binary_Read_ok)
    have "5 \<le> length (stream ?r1)" using len by (simp add: ReadFull_snd)
    then have B1: "binary_Read 5 decode_PaletteEntry ?r1 =
        (Inr (decode_PaletteEntry (take 5 (stream ?r1))), ?r2)"
      by (rule binary_Read_ok)
    have n: "(7 - 2) div 5 = (1 :: uint16)" by simp
    have "readPalette_loop 1 0 [] {} ?r1 = (Inr [decode_PaletteEntry (take 5 (stream ?r1))], ?r2)"
      by (simp add: readPalette_loop_step [OF _ B1] readPalette_loop_done)
    then show ?thesis
      unfolding readPalette_def B n by simp
  qed
  have 5: "\<exists>p r'. readPalette 2 r = (Inr p, r') \<and> Palette_Entries p = []"
    if len: "2 \<le> length (stream r)"
  proof -
    have B: "binary_Read 2 decode_pds r =
        (Inr (decode_pds (take 2 (stream r))), snd (ReadFull 2 r))"
      using len by (simp add: binary_Read_ok)
    show ?thesis
      unfolding readPalette_def B by (simp add: readPalette_loop_done)
  qed
  from 1 [of segmentSize] 2 3 4 5 show ?thesis by blast
qed

text \<open>A body of 7 bytes, of 2 bytes and of 12 bytes with two entries, and a size of 8.\<close>

theorem readPalette_size_witness:
  "readPalette 8 (source [1, 0, 5, 1, 2, 3, 4]) =
     (Inl (InvalidSegmentSize 8), source [1, 0, 5, 1, 2, 3, 4])
   \<and> (\<exists>p r'. readPalette 7 (source [1, 0, 5, 1, 2, 3, 4]) = (Inr p, r')
         \<and> length (Palette_Entries p) = 1)
   \<and> (\<exists>p r'. readPalette 2 (source [1, 0]) = (Inr p, r') \<and> Palette_Entries p = [])
   \<and> (\<exists>p r'. readPalette 12 (source [1, 0, 5, 1, 2, 3, 4, 6, 1, 2, 3, 4]) = (Inr p, r')
         \<and> length (Palette_Entries p) = 2 \<and> stream r' = [])"
proof -
  have "readPalette 12 (source [1, 0, 5, 1, 2, 3, 4, 6, 1, 2, 3, 4]) =
      (Inr \<lparr>Palette_ID = 1, Palette_Version = 0, Palette_Entries =
         [\<lparr>Entry_ID = 5, Entry_Y = 1, Entry_Cr = 2, Entry_Cb = 3, Entry_A = 4\<rparr>,
          \<lparr>Entry_ID = 6, Entry_Y = 1, Entry_Cr = 2, Entry_Cb = 3, Entry_A = 4\<rparr>]\<rparr>,
       \<lparr>chunks = [], eof_with_data = False\<rparr>)"
    by (simp add: readPalette_def readPalette_loop.simps eval_Read eval_defs)
  with readPalette_size [of 8 "source [1, 0, 5, 1, 2, 3, 4]"]
    readPalette_size [of 7 "source [1, 0, 5, 1, 2, 3, 4]"]
    readPalette_size [of 2 "source [1, 0]"]
    readPalette_size [of 12 "source [1, 0, 5, 1, 2, 3, 4, 6, 1, 2, 3, 4]"]
  show ?thesis by (simp add: eval_defs)
qed

text \<open>
  C5. A palette that \<^verbatim>\<open>readPalette\<close> returns has pairwise different entry IDs. When two
  entries of the body, number \<open>k'\<close> and number \<open>k\<close>, carry the same ID, the parser
  fails with the ID-reused error at the first entry \<open>i\<close> whose ID occurred before, naming
  \<open>i\<close> and the ID, and has then consumed the body up to and including that entry.
\<close>

theorem readPalette_duplicate_ID:
  "(\<forall>p r'. readPalette segmentSize r = (Inr p, r') \<longrightarrow>
       distinct (map Entry_ID (Palette_Entries p)))
   \<and> (unat segmentSize mod 5 = 2 \<and> s = drop 2 (stream r)
        \<and> k' < k \<and> k < (unat segmentSize - 2) div 5
        \<and> 2 + 5 * (k + 1) \<le> length (stream r)
        \<and> stream_entry_id k' s = stream_entry_id k s \<longrightarrow>
       (\<exists>i r'. i \<le> k
          \<and> readPalette segmentSize r =
              (Inl (PaletteIDReused i ((segmentSize - 2) div 5) (stream_entry_id i s)), r')
          \<and> (\<exists>j<i. stream_entry_id j s = stream_entry_id i s)
          \<and> (\<forall>a<i. \<forall>b<a. stream_entry_id b s \<noteq> stream_entry_id a s)
          \<and> stream r' = drop (2 + 5 * (i + 1)) (stream r)))"
proof -
  have 1: "distinct (map Entry_ID (Palette_Entries p))"
    if P: "readPalette segmentSize r = (Inr p, r')" for p r'
  proof -
    from P obtain r1 es where
      L: "readPalette_loop ((segmentSize - 2) div 5) 0 [] {} r1 = (Inr es, r')"
      and E: "Palette_Entries p = es"
      by (auto simp: readPalette_def split: prod.splits sum.splits if_splits)
    from readPalette_loop_inv [OF L] E show ?thesis by simp
  qed
  have 2: "\<exists>i r'. i \<le> k
          \<and> readPalette segmentSize r =
              (Inl (PaletteIDReused i ((segmentSize - 2) div 5) (stream_entry_id i s)), r')
          \<and> (\<exists>j<i. stream_entry_id j s = stream_entry_id i s)
          \<and> (\<forall>a<i. \<forall>b<a. stream_entry_id b s \<noteq> stream_entry_id a s)
          \<and> stream r' = drop (2 + 5 * (i + 1)) (stream r)"
    if M: "unat segmentSize mod 5 = 2" and s: "s = drop 2 (stream r)"
      and k: "k' < k" "k < (unat segmentSize - 2) div 5"
      and len: "2 + 5 * (k + 1) \<le> length (stream r)"
      and eq: "stream_entry_id k' s = stream_entry_id k s"
  proof -
    define P where "P i \<longleftrightarrow> (\<exists>j<i. stream_entry_id j s = stream_entry_id i s)" for i
    define i where "i = (LEAST i. P i)"
    from k(1) eq have Pk: "P k" by (auto simp: P_def)
    then have Pi: "P i" unfolding i_def by (rule LeastI)
    from Pk have ik: "i \<le> k" unfolding i_def by (rule Least_le)
    have first: "\<not> P a" if "a < i" for a
      using that unfolding i_def by (rule not_less_Least)
    let ?n = "(segmentSize - 2) div 5"
    let ?r1 = "snd (ReadFull 2 r)"
    have B: "binary_Read 2 decode_pds r = (Inr (decode_pds (take 2 (stream r))), ?r1)"
      using len by (simp add: binary_Read_ok)
    have S1: "stream ?r1 = s" by (simp add: s ReadFull_snd)
    have in': "i < unat ?n" using ik k(2) by (simp add: palette_n [OF M])
    have len1: "5 * (i + 1) \<le> length (stream ?r1)"
      using len s ik by (simp add: S1)
    have fresh: "\<forall>a<i. stream_entry_id a (stream ?r1) \<notin> {}
        \<and> (\<forall>b<a. stream_entry_id b (stream ?r1) \<noteq> stream_entry_id a (stream ?r1))"
      using first by (auto simp: P_def S1)
    have rep: "stream_entry_id i (stream ?r1) \<in> {}
        \<or> (\<exists>j<i. stream_entry_id j (stream ?r1) = stream_entry_id i (stream ?r1))"
      using Pi by (simp add: P_def S1)
    from readPalette_loop_dup [OF in' _ len1 fresh rep, of 0 "[]"]
    obtain r' where L: "readPalette_loop ?n 0 [] {} ?r1 =
        (Inl (PaletteIDReused i ?n (stream_entry_id i s)), r')"
      and S': "stream r' = drop (5 * (i + 1)) s"
      by (auto simp: S1)
    have "readPalette segmentSize r =
        (Inl (PaletteIDReused i ?n (stream_entry_id i s)), r')"
      unfolding readPalette_def B using M by (simp add: palette_mod L)
    moreover have "stream r' = drop (2 + 5 * (i + 1)) (stream r)"
      by (simp add: S' s add.commute)
    ultimately show ?thesis
      using ik Pi first by (auto simp: P_def)
  qed
  from 1 2 show ?thesis by blast
qed

text \<open>Two entries that both have ID 5, and two entries with the IDs 5 and 6.\<close>

theorem readPalette_duplicate_ID_witness:
  "(\<exists>r'. readPalette 12 (source [1, 0, 5, 1, 2, 3, 4, 5, 9, 9, 9, 9]) =
            (Inl (PaletteIDReused 1 2 5), r') \<and> stream r' = [])
   \<and> (\<exists>p r'. readPalette 12 (source [1, 0, 5, 1, 2, 3, 4, 6, 1, 2, 3, 4]) = (Inr p, r')
         \<and> distinct (map Entry_ID (Palette_Entries p)))"
proof -
  let ?dup = "source [1, 0, 5, 1, 2, 3, 4, 5, 9, 9, 9, 9]"
  let ?s = "[5, 1, 2, 3, 4, 5, 9, 9, 9, 9] :: byte list"
  have ids: "stream_entry_id 0 ?s = 5" "stream_entry_id (Suc 0) ?s = 5"
    by (simp_all add: stream_entry_id_def eval_defs)
  have "readPalette 12 (source [1, 0, 5, 1, 2, 3, 4, 6, 1, 2, 3, 4]) =
      (Inr \<lparr>Palette_ID = 1, Palette_Version = 0, Palette_Entries =
         [\<lparr>Entry_ID = 5, Entry_Y = 1, Entry_Cr = 2, Entry_Cb = 3, Entry_A = 4\<rparr>,
          \<lparr>Entry_ID = 6, Entry_Y = 1, Entry_Cr = 2, Entry_Cb = 3, Entry_A = 4\<rparr>]\<rparr>,
       \<lparr>chunks = [], eof_with_data = False\<rparr>)"
    by (simp add: readPalette_def readPalette_loop.simps eval_Read eval_defs)
  moreover from readPalette_duplicate_ID [of 12 ?dup ?s 0 1] ids
  obtain i r' where "i \<le> 1"
    "readPalette 12 ?dup = (Inl (PaletteIDReused i ((12 - 2) div 5) (stream_entry_id i ?s)), r')"
    "\<exists>j<i. stream_entry_id j ?s = stream_entry_id i ?s"
    "stream r' = drop (2 + 5 * (i + 1)) (stream ?dup)"
    by (auto simp: source_def stream_def)
  then have "i = 1" "readPalette 12 ?dup = (Inl (PaletteIDReused 1 2 5), r')" "stream r' = []"
    using ids by (auto simp: source_def stream_def le_Suc_eq)
  moreover note readPalette_duplicate_ID [of 12 "source [1, 0, 5, 1, 2, 3, 4, 6, 1, 2, 3, 4]"]
  ultimately show ?thesis by auto
qed

subsection \<open>Object segments\<close>

lemma readObject_loop_done:
  "\<not> length data < n \<Longrightarrow> readObject_loop n data r = (Inr data, r)"
  by (subst readObject_loop.simps) simp

lemma readObject_loop_step:
  "length data < n \<Longrightarrow> Read (n - length data) r = (bs, e, r1) \<Longrightarrow>
     readObject_loop n data r =
       (case e of Some err \<Rightarrow> (Inl err, r1) | None \<Rightarrow> readObject_loop n (data @ bs) r1)"
  by (subst readObject_loop.simps) (simp split: option.splits)

lemma readObject_loop_length:
  "readObject_loop n data r = (Inr d, r') \<Longrightarrow> length data \<le> n \<Longrightarrow> length d = n"
proof (induction n data r rule: readObject_loop.induct)
  case (1 n data r)
  show ?case
  proof (cases "length data < n")
    case False
    with "1.prems" show ?thesis by (simp add: readObject_loop_done)
  next
    case True
    obtain bs e r1 where R: "Read (n - length data) r = (bs, e, r1)"
      by (cases "Read (n - length data) r") auto
    from "1.prems"(1) have N: "e = None" and
      L: "readObject_loop n (data @ bs) r1 = (Inr d, r')"
      by (simp_all add: readObject_loop_step [OF True R] split: option.splits)
    have len: "length (data @ bs) \<le> n" using Read_stream [OF R] True by auto
    from "1.IH" [OF True R [symmetric] _ N L len] show ?thesis by simp
  qed
qed

text \<open>
  For a source that reports the end of the stream on a call of its own, the loop of
  \<^verbatim>\<open>readObject\<close> reads exactly the next bytes that are missing in the buffer, and fails
  with \<^verbatim>\<open>io.EOF\<close> exactly when the source holds fewer.
\<close>

lemma Read_separate_EOF:
  "\<not> eof_with_data r \<Longrightarrow> Read k r = (bs, e, r') \<Longrightarrow> (e = None) = (chunks r \<noteq> [])"
  by (auto simp: Read_def split: list.splits if_splits)

lemma readObject_loop_separate_EOF:
  "\<not> eof_with_data r \<Longrightarrow> length data \<le> n \<Longrightarrow>
     fst (readObject_loop n data r) =
       (if n - length data \<le> length (stream r)
        then Inr (data @ take (n - length data) (stream r)) else Inl EOF)
     \<and> (n - length data \<le> length (stream r) \<longrightarrow>
          stream (snd (readObject_loop n data r)) = drop (n - length data) (stream r))"
proof (induction n data r rule: readObject_loop.induct)
  case (1 n data r)
  show ?case
  proof (cases "length data < n")
    case False
    with "1.prems" show ?thesis by (simp add: readObject_loop_done)
  next
    case True
    obtain bs e r1 where R: "Read (n - length data) r = (bs, e, r1)"
      by (cases "Read (n - length data) r") auto
    note S = Read_stream [OF R]
    show ?thesis
    proof (cases e)
      case (Some err)
      with Read_error [OF R [unfolded Some]] Read_separate_EOF [OF "1.prems"(1) R]
      have "err = EOF" "chunks r = []" by simp_all
      then have "stream r = []" by (simp add: stream_Nil)
      with True Some \<open>err = EOF\<close> show ?thesis
        by (simp add: readObject_loop_step [OF True R])
    next
      case None
      have len: "length (data @ bs) \<le> n" using S True by auto
      have flag: "\<not> eof_with_data r1" using S "1.prems"(1) by simp
      have step: "readObject_loop n data r = readObject_loop n (data @ bs) r1"
        by (simp add: readObject_loop_step [OF True R] None)
      have bs: "length bs \<le> n - length data" using S by simp
      from "1.IH" [OF True R [symmetric] _ None flag len] S bs True
      show ?thesis
        unfolding step by (auto simp: take_add)
    qed
  qed
qed


lemma uint_Uint32: "uint (Uint32 l) = int (unat l)"
proof -
  have "uint l < 2 ^ 24" using unsigned_less [of l, where 'a = int] by simp
  then have "take_bit 32 (uint l) = uint l"
    by (simp add: take_bit_int_eq_self)
  then show ?thesis by (simp add: Uint32_def unsigned_ucast_eq)
qed

lemma dataLen_negative: "uint (Uint32 l) < 4 \<longleftrightarrow> unat l < 4"
  unfolding uint_Uint32 by linarith

lemma dataLen_nat: "nat (uint (Uint32 l) - 4) = unat l - 4"
  unfolding uint_Uint32 by linarith

text \<open>
  C2. Let the 11-byte object header be there and its sequence flags be legal. A total data
  length below 4 makes \<^verbatim>\<open>readObject\<close> fail with the data-length error, and a total data
  length of exactly 4 makes it succeed with an empty payload; in both cases the source is
  11 bytes further. Whenever \<^verbatim>\<open>readObject\<close> succeeds, the total data length is at least
  4 and the payload has that length minus 4.
\<close>

theorem readObject_dataLen:
  "(11 \<le> length (stream r) \<and> ods = decode_ods (take 11 (stream r))
      \<and> ods_SequenceFlag ods AND NOT (firstInSequence K OR lastInSequence K) = 0
      \<and> unat (ods_ObjectDataLength ods) < 4 \<longrightarrow>
      (\<exists>r1. readObject K segmentSize r = (Inl DataLengthErr, r1)
            \<and> stream r1 = drop 11 (stream r)))
   \<and> (11 \<le> length (stream r) \<and> ods = decode_ods (take 11 (stream r))
      \<and> ods_SequenceFlag ods AND NOT (firstInSequence K OR lastInSequence K) = 0
      \<and> unat (ods_ObjectDataLength ods) = 4 \<longrightarrow>
      (\<exists>obj r1. readObject K segmentSize r = (Inr obj, r1) \<and> Object_ObjectData obj = []
            \<and> stream r1 = drop 11 (stream r)))
   \<and> (\<forall>obj r'. readObject K segmentSize r = (Inr obj, r')
        \<and> ods = decode_ods (take 11 (stream r)) \<longrightarrow>
        4 \<le> unat (ods_ObjectDataLength ods)
        \<and> length (Object_ObjectData obj) = unat (ods_ObjectDataLength ods) - 4)"
proof -
  let ?r1 = "snd (ReadFull 11 r)"
  have S: "stream ?r1 = drop 11 (stream r)" by (simp add: ReadFull_snd)
  have 1: "\<exists>r1. readObject K segmentSize r = (Inl DataLengthErr, r1)
            \<and> stream r1 = drop 11 (stream r)"
    if "11 \<le> length (stream r)" "ods = decode_ods (take 11 (stream r))"
      "ods_SequenceFlag ods AND NOT (firstInSequence K OR lastInSequence K) = 0"
      "unat (ods_ObjectDataLength ods) < 4"
  proof -
    have B: "binary_Read 11 decode_ods r = (Inr ods, ?r1)"
      using that by (simp add: binary_Read_ok)
    show ?thesis
      unfolding readObject_def B using that(3,4) S by (simp add: dataLen_negative)
  qed
  have 2: "\<exists>obj r1. readObject K segmentSize r = (Inr obj, r1) \<and> Object_ObjectData obj = []
            \<and> stream r1 = drop 11 (stream r)"
    if "11 \<le> length (stream r)" "ods = decode_ods (take 11 (stream r))"
      "ods_SequenceFlag ods AND NOT (firstInSequence K OR lastInSequence K) = 0"
      "unat (ods_ObjectDataLength ods) = 4"
  proof -
    have B: "binary_Read 11 decode_ods r = (Inr ods, ?r1)"
      using that by (simp add: binary_Read_ok)
    show ?thesis
      unfolding readObject_def B using that(3,4) S
      by (simp add: dataLen_negative dataLen_nat readObject_loop_done)
  qed
  have 3: "4 \<le> unat (ods_ObjectDataLength ods)
        \<and> length (Object_ObjectData obj) = unat (ods_ObjectDataLength ods) - 4"
    if R: "readObject K segmentSize r = (Inr obj, r')"
      and O: "ods = decode_ods (take 11 (stream r))" for obj r'
  proof -
    from R obtain x r1 where B0: "binary_Read 11 decode_ods r = (Inr x, r1)"
      by (auto simp: readObject_def split: prod.splits sum.splits)
    from binary_Read_Inr(2) [OF B0] O have B: "binary_Read 11 decode_ods r = (Inr ods, r1)"
      using B0 by simp
    from R have len: "4 \<le> unat (ods_ObjectDataLength ods)"
      unfolding readObject_def B
      by (simp add: dataLen_negative Let_def split: if_splits)
    with R obtain d where
      L: "readObject_loop (unat (ods_ObjectDataLength ods) - 4) [] r1 = (Inr d, r')"
      and D: "Object_ObjectData obj = d"
      unfolding readObject_def B
      by (auto simp: dataLen_negative dataLen_nat Let_def split: if_splits prod.splits sum.splits)
    from readObject_loop_length [OF L] D len show ?thesis by simp
  qed
  from 1 2 3 show ?thesis by blast
qed

text \<open>Total data lengths 2, 4 and 6, the last with a payload of two bytes.\<close>

theorem readObject_dataLen_witness:
  "(\<exists>r1. readObject pgs 11 (source [0, 1, 0, 0xC0, 0, 0, 2, 0, 1, 0, 1, 7]) =
            (Inl DataLengthErr, r1) \<and> stream r1 = [7])
   \<and> (\<exists>obj r1. readObject pgs 11 (source [0, 1, 0, 0xC0, 0, 0, 4, 0, 1, 0, 1, 7]) = (Inr obj, r1)
         \<and> Object_ObjectData obj = [] \<and> stream r1 = [7])
   \<and> (\<exists>obj r'. readObject pgs 13 (source [0, 1, 0, 0xC0, 0, 0, 6, 0, 1, 0, 1, 0xAA, 0xBB]) =
            (Inr obj, r') \<and> length (Object_ObjectData obj) = 2)"
proof -
  have "readObject pgs 13 (source [0, 1, 0, 0xC0, 0, 0, 6, 0, 1, 0, 1, 0xAA, 0xBB]) =
      (Inr \<lparr>Object_ID = 1, Object_Version = 0, Object_First = True, Object_Last = True,
            Object_Width = 1, Object_Height = 1, Object_ObjectData = [0xAA, 0xBB]\<rparr>,
       \<lparr>chunks = [], eof_with_data = False\<rparr>)"
    by (simp add: readObject_def readObject_loop.simps eval_Read eval_defs)
  with readObject_dataLen [of "source [0, 1, 0, 0xC0, 0, 0, 2, 0, 1, 0, 1, 7]"
      "decode_ods [0, 1, 0, 0xC0, 0, 0, 2, 0, 1, 0, 1]" pgs 11]
    readObject_dataLen [of "source [0, 1, 0, 0xC0, 0, 0, 4, 0, 1, 0, 1, 7]"
      "decode_ods [0, 1, 0, 0xC0, 0, 0, 4, 0, 1, 0, 1]" pgs 11]
    readObject_dataLen [of "source [0, 1, 0, 0xC0, 0, 0, 6, 0, 1, 0, 1, 0xAA, 0xBB]"
      "decode_ods [0, 1, 0, 0xC0, 0, 0, 6, 0, 1, 0, 1]" pgs 13]
  show ?thesis by (simp add: eval_defs)
qed

text \<open>
  With a source that reports the end of the stream on a call of its own,
  \<^verbatim>\<open>readObject\<close> returns the next \<open>N\<close> bytes as the payload when the source holds
  that many after the header, and fails with \<^verbatim>\<open>io.EOF\<close> when it does not.
\<close>

lemma readObject_separate_EOF:
  assumes "\<not> eof_with_data r" and "11 \<le> length (stream r)"
    and "ods = decode_ods (take 11 (stream r))"
    and "ods_SequenceFlag ods AND NOT (firstInSequence K OR lastInSequence K) = 0"
    and "4 \<le> unat (ods_ObjectDataLength ods)"
    and "N = unat (ods_ObjectDataLength ods) - 4"
  shows "fst (readObject K segmentSize r) =
     (if N \<le> length (drop 11 (stream r))
      then Inr \<lparr>Object_ID = ods_ObjectID ods, Object_Version = ods_ObjectVersion ods,
                Object_First = (ods_SequenceFlag ods AND firstInSequence K \<noteq> 0),
                Object_Last = (ods_SequenceFlag ods AND lastInSequence K \<noteq> 0),
                Object_Width = ods_Width ods, Object_Height = ods_Height ods,
                Object_ObjectData = take N (drop 11 (stream r))\<rparr>
      else Inl EOF)"
proof -
  let ?r1 = "snd (ReadFull 11 r)"
  have B: "binary_Read 11 decode_ods r = (Inr ods, ?r1)"
    using assms(2,3) by (simp add: binary_Read_ok)
  have F: "\<not> eof_with_data ?r1" using assms(1) by (simp add: ReadFull_snd)
  obtain x r2 where L: "readObject_loop N [] ?r1 = (x, r2)"
    by (cases "readObject_loop N [] ?r1") auto
  from readObject_loop_separate_EOF [OF F, of "[]" N] L
  have X: "x = (if N \<le> length (drop 11 (stream r))
                then Inr (take N (drop 11 (stream r))) else Inl EOF)"
    by (simp add: ReadFull_snd)
  have D: "\<not> unat (ods_ObjectDataLength ods) < 4" using assms(5) by simp
  show ?thesis
    unfolding readObject_def B using assms(4) D
    by (simp add: dataLen_negative dataLen_nat assms(6) [symmetric] L X)
qed

text \<open>
  C7. The object header below declares a total data length of 6, so a payload of 2 bytes,
  and the source holds exactly these 2 bytes after the header: it does not end before the
  payload is delivered. A source that reports the end of the stream on a call of its own
  gives the object with this payload. A source that returns the last bytes together with
  \<^verbatim>\<open>io.EOF\<close> delivers the same 2 bytes in the one \<^verbatim>\<open>Read\<close> of the loop, and
  \<^verbatim>\<open>readObject\<close> returns \<^verbatim>\<open>io.EOF\<close> and drops them, since the loop looks at the
  error before it counts the bytes.
\<close>

theorem readObject_EOF_with_last_bytes:
  "stream \<lparr>chunks = [[0, 1, 0, 0xC0, 0, 0, 6, 0, 1, 0, 1, 0xAA, 0xBB]], eof_with_data = True\<rparr> =
     [0, 1, 0, 0xC0, 0, 0, 6, 0, 1, 0, 1] @ [0xAA, 0xBB]
   \<and> Read 2 \<lparr>chunks = [[0xAA, 0xBB]], eof_with_data = True\<rparr> =
       ([0xAA, 0xBB], Some EOF, \<lparr>chunks = [], eof_with_data = True\<rparr>)
   \<and> readObject pgs 13
       \<lparr>chunks = [[0, 1, 0, 0xC0, 0, 0, 6, 0, 1, 0, 1, 0xAA, 0xBB]], eof_with_data = True\<rparr> =
       (Inl EOF, \<lparr>chunks = [], eof_with_data = True\<rparr>)
   \<and> readObject pgs 13
       \<lparr>chunks = [[0, 1, 0, 0xC0, 0, 0, 6, 0, 1, 0, 1, 0xAA, 0xBB]], eof_with_data = False\<rparr> =
       (Inr \<lparr>Object_ID = 1, Object_Version = 0, Object_First = True, Object_Last = True,
             Object_Width = 1, Object_Height = 1, Object_ObjectData = [0xAA, 0xBB]\<rparr>,
        \<lparr>chunks = [], eof_with_data = False\<rparr>)"
  by (simp add: readObject_def readObject_loop.simps eval_Read eval_defs)

subsection \<open>Presentation composition segments\<close>

lemma readPresentationComposition_loop_done:
  "\<not> i < unat c \<Longrightarrow>
     readPresentationComposition_loop K c i objects sz r = (Inr (objects, sz), r)"
  by (subst readPresentationComposition_loop.simps) simp

lemma readPresentationComposition_loop_err:
  "i < unat c \<Longrightarrow> binary_Read 8 decode_pcsCompositionObject r = (Inl err, r1) \<Longrightarrow>
     readPresentationComposition_loop K c i objects sz r =
       (Inl (CompositionObjectErr (i + 1) c err), r1)"
  by (subst readPresentationComposition_loop.simps) simp

lemma readPresentationComposition_loop_step:
  "i < unat c \<Longrightarrow> binary_Read 8 decode_pcsCompositionObject r = (Inr obj, r1) \<Longrightarrow>
     readPresentationComposition_loop K c i objects sz r =
       (if pco_ObjectCropped obj AND NOT (croppedForce K) \<noteq> 0
        then (Inl (UnrecognizedCropFlag (i + 1) c (pco_ObjectCropped obj)), r1)
        else if pco_ObjectCropped obj = croppedForce K
        then (case binary_Read 8 decode_CompositionObjectCrop r1 of
                (Inl err, r2) \<Rightarrow> (Inl err, r2)
              | (Inr crop, r2) \<Rightarrow>
                  readPresentationComposition_loop K c (i + 1)
                    (objects @ [\<lparr>CO_ObjectID = pco_ObjectID obj, CO_WindowID = pco_WindowID obj,
                                 CO_X = pco_X obj, CO_Y = pco_Y obj, CO_Crop = None\<rparr>
                                \<lparr>CO_Crop := Some crop\<rparr>])
                    (sz + 8 + 8) r2)
        else readPresentationComposition_loop K c (i + 1)
               (objects @ [\<lparr>CO_ObjectID = pco_ObjectID obj, CO_WindowID = pco_WindowID obj,
                            CO_X = pco_X obj, CO_Y = pco_Y obj, CO_Crop = None\<rparr>])
               (sz + 8) r1)"
  by (subst readPresentationComposition_loop.simps) (simp add: Let_def)

text \<open>
  What a completed run of the loop has done: it has appended one object for each remaining
  index, added 8 to \<^verbatim>\<open>size\<close> for each object and 8 more for each crop, given an object a
  crop exactly when its flag byte in the input is \<^verbatim>\<open>croppedForce\<close>, met only legal flag
  bytes, and consumed as many bytes as it has added to \<^verbatim>\<open>size\<close>.
\<close>

lemma readPresentationComposition_loop_inv:
  "readPresentationComposition_loop K c i objects sz r = (Inr (objects', sz'), r') \<Longrightarrow>
   d = unat c - i \<Longrightarrow>
   \<exists>new. objects' = objects @ new \<and> length new = d
     \<and> sz' = sz + 8 * int (length new) + 8 * int (length (filter (\<lambda>ob. CO_Crop ob \<noteq> None) new))
     \<and> list_all2 (\<lambda>f ob. f AND NOT (croppedForce K) = 0
                          \<and> ((CO_Crop ob \<noteq> None) = (f = croppedForce K)))
          (stream_crop_flags K d (stream r)) new
     \<and> stream r' =
         drop (8 * length new + 8 * length (filter (\<lambda>ob. CO_Crop ob \<noteq> None) new)) (stream r)"
proof (induction d arbitrary: i objects sz r)
  case 0
  then have "\<not> i < unat c" by simp
  with "0.prems"(1) show ?case
    by (simp add: readPresentationComposition_loop_done)
next
  case (Suc d)
  then have i: "i < unat c" and d: "d = unat c - (i + 1)" by simp_all
  let ?s = "stream r"
  obtain x r1 where B0: "binary_Read 8 decode_pcsCompositionObject r = (x, r1)"
    by (cases "binary_Read 8 decode_pcsCompositionObject r") auto
  obtain obj where "x = Inr obj"
  proof (cases x)
    case (Inl err)
    with Suc.prems(1) readPresentationComposition_loop_err [OF i B0 [unfolded Inl]]
    show ?thesis by simp
  next
    case (Inr obj)
    with that show ?thesis .
  qed
  with B0 have B: "binary_Read 8 decode_pcsCompositionObject r = (Inr obj, r1)" by simp
  note R = binary_Read_Inr [OF B]
  let ?f = "pco_ObjectCropped obj"
  let ?base = "\<lparr>CO_ObjectID = pco_ObjectID obj, CO_WindowID = pco_WindowID obj,
                 CO_X = pco_X obj, CO_Y = pco_Y obj, CO_Crop = None\<rparr>"
  from Suc.prems(1) have legal: "?f AND NOT (croppedForce K) = 0"
    by (simp add: readPresentationComposition_loop_step [OF i B] split: if_splits)
  have f: "pco_ObjectCropped (decode_pcsCompositionObject (take 8 ?s)) = ?f"
    using R(2) by simp
  show ?case
  proof (cases "?f = croppedForce K")
    case True
    from Suc.prems(1) legal True have
      "(case binary_Read 8 decode_CompositionObjectCrop r1 of
          (Inl err, r2) \<Rightarrow> (Inl err, r2)
        | (Inr crop, r2) \<Rightarrow>
            readPresentationComposition_loop K c (i + 1)
              (objects @ [?base\<lparr>CO_Crop := Some crop\<rparr>]) (sz + 8 + 8) r2)
       = (Inr (objects', sz'), r')"
      by (simp add: readPresentationComposition_loop_step [OF i B])
    then obtain crop r2 where
      B2: "binary_Read 8 decode_CompositionObjectCrop r1 = (Inr crop, r2)"
      and L: "readPresentationComposition_loop K c (i + 1)
                (objects @ [?base\<lparr>CO_Crop := Some crop\<rparr>]) (sz + 8 + 8) r2 = (Inr (objects', sz'), r')"
      by (auto split: prod.splits sum.splits)
    have S2: "stream r2 = drop 16 ?s"
      using binary_Read_Inr(3) [OF B2] R(3) by simp
    from Suc.IH [OF L d] obtain new where
      N: "objects' = (objects @ [?base\<lparr>CO_Crop := Some crop\<rparr>]) @ new" "length new = d"
        "sz' = sz + 8 + 8 + 8 * int (length new)
               + 8 * int (length (filter (\<lambda>ob. CO_Crop ob \<noteq> None) new))"
        "list_all2 (\<lambda>f ob. f AND NOT (croppedForce K) = 0
                          \<and> ((CO_Crop ob \<noteq> None) = (f = croppedForce K)))
          (stream_crop_flags K d (stream r2)) new"
        "stream r' =
           drop (8 * length new + 8 * length (filter (\<lambda>ob. CO_Crop ob \<noteq> None) new)) (stream r2)"
      by auto
    let ?new = "?base\<lparr>CO_Crop := Some crop\<rparr> # new"
    have "objects' = objects @ ?new" using N(1) by simp
    moreover have "length ?new = Suc d" using N(2) by simp
    moreover have "sz' = sz + 8 * int (length ?new)
        + 8 * int (length (filter (\<lambda>ob. CO_Crop ob \<noteq> None) ?new))"
      using N(3) by simp
    moreover have "list_all2 (\<lambda>f ob. f AND NOT (croppedForce K) = 0
                          \<and> ((CO_Crop ob \<noteq> None) = (f = croppedForce K)))
          (stream_crop_flags K (Suc d) ?s) ?new"
      using N(4) legal True by (simp add: f Let_def S2)
    moreover have "stream r' =
         drop (8 * length ?new + 8 * length (filter (\<lambda>ob. CO_Crop ob \<noteq> None) ?new)) ?s"
      using N(5) by (simp add: S2 ac_simps)
    ultimately show ?thesis by blast
  next
    case False
    from Suc.prems(1) legal False have
      L: "readPresentationComposition_loop K c (i + 1) (objects @ [?base]) (sz + 8) r1
            = (Inr (objects', sz'), r')"
      by (simp add: readPresentationComposition_loop_step [OF i B])
    from Suc.IH [OF L d] obtain new where
      N: "objects' = (objects @ [?base]) @ new" "length new = d"
        "sz' = sz + 8 + 8 * int (length new)
               + 8 * int (length (filter (\<lambda>ob. CO_Crop ob \<noteq> None) new))"
        "list_all2 (\<lambda>f ob. f AND NOT (croppedForce K) = 0
                          \<and> ((CO_Crop ob \<noteq> None) = (f = croppedForce K)))
          (stream_crop_flags K d (stream r1)) new"
        "stream r' =
           drop (8 * length new + 8 * length (filter (\<lambda>ob. CO_Crop ob \<noteq> None) new)) (stream r1)"
      by auto
    let ?new = "?base # new"
    have "objects' = objects @ ?new" using N(1) by simp
    moreover have "length ?new = Suc d" using N(2) by simp
    moreover have "sz' = sz + 8 * int (length ?new)
        + 8 * int (length (filter (\<lambda>ob. CO_Crop ob \<noteq> None) ?new))"
      using N(3) by simp
    moreover have "list_all2 (\<lambda>f ob. f AND NOT (croppedForce K) = 0
                          \<and> ((CO_Crop ob \<noteq> None) = (f = croppedForce K)))
          (stream_crop_flags K (Suc d) ?s) ?new"
      using N(4) legal False by (simp add: f Let_def R(3))
    moreover have "stream r' =
         drop (8 * length ?new + 8 * length (filter (\<lambda>ob. CO_Crop ob \<noteq> None) ?new)) ?s"
      using N(5) by (simp add: R(3) ac_simps)
    ultimately show ?thesis by blast
  qed
qed


lemma stream_crop_flags_length [simp]: "length (stream_crop_flags K n s) = n"
  by (induction n arbitrary: s) (simp_all add: Let_def)

lemma stream_crop_flags_take:
  "m \<le> n \<Longrightarrow> take m (stream_crop_flags K n s) = stream_crop_flags K m s"
proof (induction m arbitrary: n s)
  case 0
  then show ?case by simp
next
  case (Suc m)
  then obtain n' where n: "n = Suc n'" "m \<le> n'" by (cases n) auto
  with Suc.IH show ?case by (simp add: Let_def)
qed

text \<open>
  When the flag bytes of all remaining records are legal and the records, with the crops
  their flags announce, are all there, the loop completes.
\<close>

lemma readPresentationComposition_loop_ok:
  "d = unat c - i \<Longrightarrow> fs = stream_crop_flags K d (stream r) \<Longrightarrow>
   (\<forall>f\<in>set fs. f AND NOT (croppedForce K) = 0) \<Longrightarrow>
   8 * d + 8 * length (filter (\<lambda>f. f = croppedForce K) fs) \<le> length (stream r) \<Longrightarrow>
   \<exists>objects' r'. readPresentationComposition_loop K c i objects sz r =
      (Inr (objects', sz + 8 * int d + 8 * int (length (filter (\<lambda>f. f = croppedForce K) fs))), r')"
proof (induction d arbitrary: i objects sz r fs)
  case 0
  then have "\<not> i < unat c" by simp
  with 0 show ?case by (simp add: readPresentationComposition_loop_done)
next
  case (Suc d)
  then have i: "i < unat c" and d: "d = unat c - (i + 1)" by simp_all
  let ?s = "stream r"
  let ?r1 = "snd (ReadFull 8 r)"
  let ?obj = "decode_pcsCompositionObject (take 8 ?s)"
  let ?f = "pco_ObjectCropped ?obj"
  let ?skip = "if ?f = croppedForce K then 16 else 8 :: nat"
  let ?fs = "stream_crop_flags K d (drop ?skip ?s)"
  have fs: "fs = ?f # ?fs" using Suc.prems(2) by (simp add: Let_def)
  from Suc.prems(4) have len8: "8 \<le> length ?s" by simp
  have B: "binary_Read 8 decode_pcsCompositionObject r = (Inr ?obj, ?r1)"
    using len8 by (rule binary_Read_ok)
  have S1: "stream ?r1 = drop 8 ?s" by (simp add: ReadFull_snd)
  from Suc.prems(3) fs have legal: "?f AND NOT (croppedForce K) = 0"
    and legal': "\<forall>f\<in>set ?fs. f AND NOT (croppedForce K) = 0" by simp_all
  show ?case
  proof (cases "?f = croppedForce K")
    case True
    let ?r2 = "snd (ReadFull 8 ?r1)"
    from Suc.prems(4) fs True have len16: "16 \<le> length ?s"
      and len': "8 * d + 8 * length (filter (\<lambda>f. f = croppedForce K) ?fs) \<le> length (drop 16 ?s)"
      by simp_all
    have B2: "binary_Read 8 decode_CompositionObjectCrop ?r1 =
        (Inr (decode_CompositionObjectCrop (take 8 (stream ?r1))), ?r2)"
      using len16 by (intro binary_Read_ok) (simp add: S1)
    have S2: "stream ?r2 = drop 16 ?s" by (simp add: ReadFull_snd)
    have fs2: "?fs = stream_crop_flags K d (stream ?r2)" using True by (simp add: S2)
    from Suc.IH [OF d fs2 legal'] len' obtain objects' r' where
      "readPresentationComposition_loop K c (i + 1)
         (objects @ [\<lparr>CO_ObjectID = pco_ObjectID ?obj, CO_WindowID = pco_WindowID ?obj,
                      CO_X = pco_X ?obj, CO_Y = pco_Y ?obj, CO_Crop = None\<rparr>
                     \<lparr>CO_Crop := Some (decode_CompositionObjectCrop (take 8 (stream ?r1)))\<rparr>])
         (sz + 8 + 8) ?r2 =
       (Inr (objects', sz + 8 + 8 + 8 * int d
               + 8 * int (length (filter (\<lambda>f. f = croppedForce K) ?fs))), r')"
      unfolding S2 by blast
    then show ?thesis
      using legal True fs
      by (simp add: readPresentationComposition_loop_step [OF i B] B2)
  next
    case False
    from Suc.prems(4) fs False have
      len': "8 * d + 8 * length (filter (\<lambda>f. f = croppedForce K) ?fs) \<le> length (drop 8 ?s)"
      by simp
    have fs1: "?fs = stream_crop_flags K d (stream ?r1)" using False by (simp add: S1)
    from Suc.IH [OF d fs1 legal'] len' obtain objects' r' where
      "readPresentationComposition_loop K c (i + 1)
         (objects @ [\<lparr>CO_ObjectID = pco_ObjectID ?obj, CO_WindowID = pco_WindowID ?obj,
                      CO_X = pco_X ?obj, CO_Y = pco_Y ?obj, CO_Crop = None\<rparr>])
         (sz + 8) ?r1 =
       (Inr (objects', sz + 8 + 8 * int d
               + 8 * int (length (filter (\<lambda>f. f = croppedForce K) ?fs))), r')"
      unfolding S1 by blast
    then show ?thesis
      using legal False fs
      by (simp add: readPresentationComposition_loop_step [OF i B])
  qed
qed

text \<open>
  When the flag bytes of the records before record \<open>d\<close> are legal, the one of record
  \<open>d\<close> is not, and the input reaches to the end of record \<open>d\<close>, the loop fails there
  with the unrecognized-flag error.
\<close>

lemma readPresentationComposition_loop_bad_flag:
  "i < unat c \<Longrightarrow> j + d = i \<Longrightarrow> fs = stream_crop_flags K (d + 1) (stream r) \<Longrightarrow>
   (\<forall>k<d. fs ! k AND NOT (croppedForce K) = 0) \<Longrightarrow>
   fs ! d AND NOT (croppedForce K) \<noteq> 0 \<Longrightarrow>
   8 * d + 8 * length (filter (\<lambda>f. f = croppedForce K) (take d fs)) + 8 \<le> length (stream r) \<Longrightarrow>
   \<exists>r'. readPresentationComposition_loop K c j objects sz r =
      (Inl (UnrecognizedCropFlag (i + 1) c (fs ! d)), r')"
proof (induction d arbitrary: j objects sz r fs)
  case 0
  let ?s = "stream r"
  let ?obj = "decode_pcsCompositionObject (take 8 ?s)"
  from 0 have j: "j < unat c" "j = i" by simp_all
  from "0.prems"(6) have "8 \<le> length ?s" by simp
  then have B: "binary_Read 8 decode_pcsCompositionObject r = (Inr ?obj, snd (ReadFull 8 r))"
    by (rule binary_Read_ok)
  from "0.prems"(3) have fs: "fs = [pco_ObjectCropped ?obj]" by (simp add: Let_def)
  with "0.prems"(5) have "readPresentationComposition_loop K c j objects sz r =
      (Inl (UnrecognizedCropFlag (j + 1) c (fs ! 0)), snd (ReadFull 8 r))"
    by (simp add: readPresentationComposition_loop_step [OF j(1) B])
  with j(2) show ?case by simp
next
  case (Suc d)
  let ?s = "stream r"
  let ?r1 = "snd (ReadFull 8 r)"
  let ?obj = "decode_pcsCompositionObject (take 8 ?s)"
  let ?f = "pco_ObjectCropped ?obj"
  let ?skip = "if ?f = croppedForce K then 16 else 8 :: nat"
  let ?fs = "stream_crop_flags K (d + 1) (drop ?skip ?s)"
  from Suc.prems have j: "j < unat c" "(j + 1) + d = i" by simp_all
  have fs: "fs = ?f # ?fs" using Suc.prems(3) by (simp add: Let_def)
  from Suc.prems(6) have len8: "8 \<le> length ?s" by simp
  have B: "binary_Read 8 decode_pcsCompositionObject r = (Inr ?obj, ?r1)"
    using len8 by (rule binary_Read_ok)
  have S1: "stream ?r1 = drop 8 ?s" by (simp add: ReadFull_snd)
  from Suc.prems(4) [rule_format, of 0] fs have legal: "?f AND NOT (croppedForce K) = 0"
    by simp
  have legal': "\<forall>k<d. ?fs ! k AND NOT (croppedForce K) = 0"
  proof (intro allI impI)
    fix k assume "k < d"
    with Suc.prems(4) [rule_format, of "Suc k"] fs
    show "?fs ! k AND NOT (croppedForce K) = 0" by simp
  qed
  have bad': "?fs ! d AND NOT (croppedForce K) \<noteq> 0"
    using Suc.prems(5) fs by simp
  have last: "fs ! Suc d = ?fs ! d" using fs by simp
  show ?case
  proof (cases "?f = croppedForce K")
    case True
    let ?r2 = "snd (ReadFull 8 ?r1)"
    from Suc.prems(6) fs True have len16: "16 \<le> length ?s"
      and len': "8 * d + 8 * length (filter (\<lambda>f. f = croppedForce K) (take d ?fs)) + 8
                   \<le> length (drop 16 ?s)"
      by simp_all
    have B2: "binary_Read 8 decode_CompositionObjectCrop ?r1 =
        (Inr (decode_CompositionObjectCrop (take 8 (stream ?r1))), ?r2)"
      using len16 by (intro binary_Read_ok) (simp add: S1)
    have S2: "stream ?r2 = drop 16 ?s" by (simp add: ReadFull_snd)
    have fs2: "?fs = stream_crop_flags K (d + 1) (stream ?r2)" using True by (simp add: S2)
    from Suc.IH [OF Suc.prems(1) j(2) fs2 legal' bad'] len' obtain r' where
      "readPresentationComposition_loop K c (j + 1)
         (objects @ [\<lparr>CO_ObjectID = pco_ObjectID ?obj, CO_WindowID = pco_WindowID ?obj,
                      CO_X = pco_X ?obj, CO_Y = pco_Y ?obj, CO_Crop = None\<rparr>
                     \<lparr>CO_Crop := Some (decode_CompositionObjectCrop (take 8 (stream ?r1)))\<rparr>])
         (sz + 8 + 8) ?r2 =
       (Inl (UnrecognizedCropFlag (i + 1) c (?fs ! d)), r')"
      unfolding S2 by blast
    then show ?thesis
      using legal True
      by (simp add: readPresentationComposition_loop_step [OF j(1) B] B2 last)
  next
    case False
    from Suc.prems(6) fs False have
      len': "8 * d + 8 * length (filter (\<lambda>f. f = croppedForce K) (take d ?fs)) + 8
               \<le> length (drop 8 ?s)"
      by simp
    have fs1: "?fs = stream_crop_flags K (d + 1) (stream ?r1)" using False by (simp add: S1)
    from Suc.IH [OF Suc.prems(1) j(2) fs1 legal' bad'] len' obtain r' where
      "readPresentationComposition_loop K c (j + 1)
         (objects @ [\<lparr>CO_ObjectID = pco_ObjectID ?obj, CO_WindowID = pco_WindowID ?obj,
                      CO_X = pco_X ?obj, CO_Y = pco_Y ?obj, CO_Crop = None\<rparr>])
         (sz + 8) ?r1 =
       (Inl (UnrecognizedCropFlag (i + 1) c (?fs ! d)), r')"
      unfolding S1 by blast
    then show ?thesis
      using legal False
      by (simp add: readPresentationComposition_loop_step [OF j(1) B] last)
  qed
qed


lemma readPresentationComposition_header:
  assumes "11 \<le> length (stream r)" and "p = decode_pcs (take 11 (stream r))"
    and "r1 = snd (ReadFull 11 r)"
  shows "readPresentationComposition K segmentSize r =
     (if \<not> (pcs_CompositionState p = Normal K \<or> pcs_CompositionState p = AcquisitionPoint K
              \<or> pcs_CompositionState p = EpochStart K)
      then (Inl (UnrecognizedCompositionState (pcs_CompositionState p)), r1)
      else if pcs_PaletteUpdateFlag p AND NOT (pufTrue K) \<noteq> 0
      then (Inl (UnrecognizedPaletteUpdateFlag (pcs_PaletteUpdateFlag p)), r1)
      else (case readPresentationComposition_loop K (pcs_ObjectCount p) 0 [] 11 r1 of
              (Inl err, r2) \<Rightarrow> (Inl err, r2)
            | (Inr (objects, sz), r2) \<Rightarrow>
                if sz \<noteq> uint segmentSize
                then (Inl (ReadBytesMismatch sz segmentSize), r2)
                else (Inr \<lparr>PC_Width = pcs_Width p, PC_Height = pcs_Height p,
                           PC_FrameRate = pcs_FrameRate p,
                           PC_CompositionNumber = pcs_CompositionNumber p,
                           PC_CompositionState = pcs_CompositionState p,
                           PC_PaletteUpdate = (pcs_PaletteUpdateFlag p AND pufTrue K \<noteq> 0),
                           PC_PaletteID = pcs_PaletteID p,
                           PC_Objects = objects\<rparr>, r2)))"
proof -
  have B: "binary_Read 11 decode_pcs r = (Inr p, r1)"
    using assms by (simp add: binary_Read_ok)
  show ?thesis unfolding readPresentationComposition_def B by simp
qed

text \<open>What a successful \<^verbatim>\<open>readPresentationComposition\<close> says about its input.\<close>

lemma readPresentationComposition_success:
  assumes R: "readPresentationComposition K segmentSize r = (Inr pc, r')"
    and p: "p = decode_pcs (take 11 (stream r))"
    and fs: "fs = stream_crop_flags K (unat (pcs_ObjectCount p)) (drop 11 (stream r))"
  shows "pcs_CompositionState p = Normal K \<or> pcs_CompositionState p = AcquisitionPoint K
           \<or> pcs_CompositionState p = EpochStart K"
    and "pcs_PaletteUpdateFlag p AND NOT (pufTrue K) = 0"
    and "length (PC_Objects pc) = unat (pcs_ObjectCount p)"
    and "list_all2 (\<lambda>f ob. f AND NOT (croppedForce K) = 0
                          \<and> ((CO_Crop ob \<noteq> None) = (f = croppedForce K))) fs (PC_Objects pc)"
    and "uint segmentSize = 11 + 8 * int (length (PC_Objects pc))
           + 8 * int (length (filter (\<lambda>ob. CO_Crop ob \<noteq> None) (PC_Objects pc)))"
    and "stream r' = drop (unat segmentSize) (stream r)"
proof -
  let ?r1 = "snd (ReadFull 11 r)"
  have len: "11 \<le> length (stream r)"
  proof (rule ccontr)
    assume "\<not> 11 \<le> length (stream r)"
    with R show False
      by (simp add: readPresentationComposition_def binary_Read_eq)
  qed
  note H = readPresentationComposition_header [OF len p refl, of K segmentSize]
  from R show st: "pcs_CompositionState p = Normal K \<or> pcs_CompositionState p = AcquisitionPoint K
           \<or> pcs_CompositionState p = EpochStart K"
    unfolding H by (simp split: if_splits)
  from R st show puf: "pcs_PaletteUpdateFlag p AND NOT (pufTrue K) = 0"
    unfolding H by (simp split: if_splits)
  from R st puf have
    "(case readPresentationComposition_loop K (pcs_ObjectCount p) 0 [] 11 ?r1 of
              (Inl err, r2) \<Rightarrow> (Inl err, r2)
            | (Inr (objects, sz), r2) \<Rightarrow>
                if sz \<noteq> uint segmentSize
                then (Inl (ReadBytesMismatch sz segmentSize), r2)
                else (Inr \<lparr>PC_Width = pcs_Width p, PC_Height = pcs_Height p,
                           PC_FrameRate = pcs_FrameRate p,
                           PC_CompositionNumber = pcs_CompositionNumber p,
                           PC_CompositionState = pcs_CompositionState p,
                           PC_PaletteUpdate = (pcs_PaletteUpdateFlag p AND pufTrue K \<noteq> 0),
                           PC_PaletteID = pcs_PaletteID p,
                           PC_Objects = objects\<rparr>, r2)) = (Inr pc, r')"
    unfolding H by simp
  then obtain objects where
    L: "readPresentationComposition_loop K (pcs_ObjectCount p) 0 [] 11 ?r1
          = (Inr (objects, uint segmentSize), r')"
    and O: "PC_Objects pc = objects"
    by (auto split: prod.splits sum.splits if_splits)
  have S1: "stream ?r1 = drop 11 (stream r)" by (simp add: ReadFull_snd)
  from readPresentationComposition_loop_inv [OF L refl] O
  have I: "length (PC_Objects pc) = unat (pcs_ObjectCount p)"
    "uint segmentSize = 11 + 8 * int (length (PC_Objects pc))
           + 8 * int (length (filter (\<lambda>ob. CO_Crop ob \<noteq> None) (PC_Objects pc)))"
    "list_all2 (\<lambda>f ob. f AND NOT (croppedForce K) = 0
                          \<and> ((CO_Crop ob \<noteq> None) = (f = croppedForce K))) fs (PC_Objects pc)"
    "stream r' = drop (8 * length (PC_Objects pc)
         + 8 * length (filter (\<lambda>ob. CO_Crop ob \<noteq> None) (PC_Objects pc)) + 11) (stream r)"
    by (auto simp: S1 fs)
  from I(1-3) show "length (PC_Objects pc) = unat (pcs_ObjectCount p)"
    and "list_all2 (\<lambda>f ob. f AND NOT (croppedForce K) = 0
                          \<and> ((CO_Crop ob \<noteq> None) = (f = croppedForce K))) fs (PC_Objects pc)"
    and "uint segmentSize = 11 + 8 * int (length (PC_Objects pc))
           + 8 * int (length (filter (\<lambda>ob. CO_Crop ob \<noteq> None) (PC_Objects pc)))"
    by simp_all
  from I(2) have "unat segmentSize = 8 * length (PC_Objects pc)
         + 8 * length (filter (\<lambda>ob. CO_Crop ob \<noteq> None) (PC_Objects pc)) + 11"
    by (simp add: unat_eq_nat_uint del: nat_uint_eq)
  with I(4) show "stream r' = drop (unat segmentSize) (stream r)" by simp
qed

text \<open>
  What \<^verbatim>\<open>readPresentationComposition\<close> returns when the composition header is legal
  and the object records are legal and all there: the size check decides.
\<close>

lemma readPresentationComposition_complete:
  assumes p: "p = decode_pcs (take 11 (stream r))"
    and st: "pcs_CompositionState p = Normal K \<or> pcs_CompositionState p = AcquisitionPoint K
           \<or> pcs_CompositionState p = EpochStart K"
    and puf: "pcs_PaletteUpdateFlag p AND NOT (pufTrue K) = 0"
    and fs: "fs = stream_crop_flags K (unat (pcs_ObjectCount p)) (drop 11 (stream r))"
    and legal: "\<forall>f\<in>set fs. f AND NOT (croppedForce K) = 0"
    and T: "T = 11 + 8 * unat (pcs_ObjectCount p) + 8 * length (filter (\<lambda>f. f = croppedForce K) fs)"
    and len: "T \<le> length (stream r)"
  shows "\<exists>objects r'. readPresentationComposition K segmentSize r =
     (if int T \<noteq> uint segmentSize
      then (Inl (ReadBytesMismatch (int T) segmentSize), r')
      else (Inr \<lparr>PC_Width = pcs_Width p, PC_Height = pcs_Height p,
                 PC_FrameRate = pcs_FrameRate p,
                 PC_CompositionNumber = pcs_CompositionNumber p,
                 PC_CompositionState = pcs_CompositionState p,
                 PC_PaletteUpdate = (pcs_PaletteUpdateFlag p AND pufTrue K \<noteq> 0),
                 PC_PaletteID = pcs_PaletteID p,
                 PC_Objects = objects\<rparr>, r'))"
proof -
  let ?r1 = "snd (ReadFull 11 r)"
  from T len have len11: "11 \<le> length (stream r)" by simp
  have S1: "stream ?r1 = drop 11 (stream r)" by (simp add: ReadFull_snd)
  have fs1: "fs = stream_crop_flags K (unat (pcs_ObjectCount p) - 0) (stream ?r1)"
    by (simp add: fs S1)
  have "8 * (unat (pcs_ObjectCount p) - 0) + 8 * length (filter (\<lambda>f. f = croppedForce K) fs)
      \<le> length (stream ?r1)"
    using T len by (simp add: S1)
  from readPresentationComposition_loop_ok [OF refl fs1 legal this, of "[]" 11]
  obtain objects r' where
    L: "readPresentationComposition_loop K (pcs_ObjectCount p) 0 [] 11 ?r1 =
          (Inr (objects, int T), r')"
    by (auto simp: T)
  show ?thesis
    unfolding readPresentationComposition_header [OF len11 p refl] L
    using st puf by auto
qed


text \<open>
  C1. When \<^verbatim>\<open>readPresentationComposition\<close> succeeds, 11 plus 8 for each object plus 8
  for each object with a crop equals the declared body size, the number of objects is the
  count of the composition header, and the declared number of bytes has been consumed.
  When the composition header is legal and the object records it announces are legal and
  all there, so that the loop completes, the parser fails with the size-mismatch error,
  which carries this total \<open>T\<close>, whenever \<open>T\<close> differs from the declared size, and succeeds
  when they are equal. In particular one object without a crop and a declared size of 19
  succeed.
\<close>

theorem readPresentationComposition_size:
  "(\<forall>pc r'. readPresentationComposition K segmentSize r = (Inr pc, r') \<longrightarrow>
       11 + 8 * int (length (PC_Objects pc))
          + 8 * int (length (filter (\<lambda>ob. CO_Crop ob \<noteq> None) (PC_Objects pc)))
         = uint segmentSize
       \<and> length (PC_Objects pc) = unat (pcs_ObjectCount (decode_pcs (take 11 (stream r))))
       \<and> stream r' = drop (unat segmentSize) (stream r))
   \<and> (p = decode_pcs (take 11 (stream r))
       \<and> pcs_CompositionState p \<in> {Normal K, AcquisitionPoint K, EpochStart K}
       \<and> pcs_PaletteUpdateFlag p AND NOT (pufTrue K) = 0
       \<and> fs = stream_crop_flags K (unat (pcs_ObjectCount p)) (drop 11 (stream r))
       \<and> (\<forall>f\<in>set fs. f AND NOT (croppedForce K) = 0)
       \<and> T = 11 + 8 * unat (pcs_ObjectCount p)
               + 8 * length (filter (\<lambda>f. f = croppedForce K) fs)
       \<and> T \<le> length (stream r) \<longrightarrow>
       (int T \<noteq> uint segmentSize \<longrightarrow>
          (\<exists>r'. readPresentationComposition K segmentSize r =
                  (Inl (ReadBytesMismatch (int T) segmentSize), r')))
       \<and> (int T = uint segmentSize \<longrightarrow>
          (\<exists>pc r'. readPresentationComposition K segmentSize r = (Inr pc, r'))))
   \<and> (p = decode_pcs (take 11 (stream r))
       \<and> pcs_CompositionState p \<in> {Normal K, AcquisitionPoint K, EpochStart K}
       \<and> pcs_PaletteUpdateFlag p AND NOT (pufTrue K) = 0
       \<and> pcs_ObjectCount p = 1
       \<and> f = pco_ObjectCropped (decode_pcsCompositionObject (take 8 (drop 11 (stream r))))
       \<and> f AND NOT (croppedForce K) = 0 \<and> f \<noteq> croppedForce K
       \<and> 19 \<le> length (stream r) \<longrightarrow>
       (\<exists>pc r'. readPresentationComposition K 19 r = (Inr pc, r')
          \<and> length (PC_Objects pc) = 1 \<and> CO_Crop (PC_Objects pc ! 0) = None
          \<and> stream r' = drop 19 (stream r)))"
proof -
  have 1: "11 + 8 * int (length (PC_Objects pc))
          + 8 * int (length (filter (\<lambda>ob. CO_Crop ob \<noteq> None) (PC_Objects pc)))
         = uint segmentSize
       \<and> length (PC_Objects pc) = unat (pcs_ObjectCount (decode_pcs (take 11 (stream r))))
       \<and> stream r' = drop (unat segmentSize) (stream r)"
    if "readPresentationComposition K segmentSize r = (Inr pc, r')" for pc r'
    using readPresentationComposition_success(3,5,6) [OF that refl refl] by simp
  have 2: "(int T \<noteq> uint segmentSize \<longrightarrow>
          (\<exists>r'. readPresentationComposition K segmentSize r =
                  (Inl (ReadBytesMismatch (int T) segmentSize), r')))
       \<and> (int T = uint segmentSize \<longrightarrow>
          (\<exists>pc r'. readPresentationComposition K segmentSize r = (Inr pc, r')))"
    if "p = decode_pcs (take 11 (stream r))"
      "pcs_CompositionState p \<in> {Normal K, AcquisitionPoint K, EpochStart K}"
      "pcs_PaletteUpdateFlag p AND NOT (pufTrue K) = 0"
      "fs = stream_crop_flags K (unat (pcs_ObjectCount p)) (drop 11 (stream r))"
      "\<forall>f\<in>set fs. f AND NOT (croppedForce K) = 0"
      "T = 11 + 8 * unat (pcs_ObjectCount p)
               + 8 * length (filter (\<lambda>f. f = croppedForce K) fs)"
      "T \<le> length (stream r)"
  proof -
    from that(2) have st: "pcs_CompositionState p = Normal K
        \<or> pcs_CompositionState p = AcquisitionPoint K \<or> pcs_CompositionState p = EpochStart K"
      by simp
    from readPresentationComposition_complete [OF that(1) st that(3-7), of segmentSize]
    show ?thesis by auto
  qed
  have 3: "\<exists>pc r'. readPresentationComposition K 19 r = (Inr pc, r')
          \<and> length (PC_Objects pc) = 1 \<and> CO_Crop (PC_Objects pc ! 0) = None
          \<and> stream r' = drop 19 (stream r)"
    if a: "p = decode_pcs (take 11 (stream r))"
      "pcs_CompositionState p \<in> {Normal K, AcquisitionPoint K, EpochStart K}"
      "pcs_PaletteUpdateFlag p AND NOT (pufTrue K) = 0"
      "pcs_ObjectCount p = 1"
      "f = pco_ObjectCropped (decode_pcsCompositionObject (take 8 (drop 11 (stream r))))"
      "f AND NOT (croppedForce K) = 0" "f \<noteq> croppedForce K"
      "19 \<le> length (stream r)"
  proof -
    from a(2) have st: "pcs_CompositionState p = Normal K
        \<or> pcs_CompositionState p = AcquisitionPoint K \<or> pcs_CompositionState p = EpochStart K"
      by simp
    have fs: "stream_crop_flags K (unat (pcs_ObjectCount p)) (drop 11 (stream r)) = [f]"
      using a(4,5) by (simp add: Let_def)
    have legal: "\<forall>f\<in>set [f]. f AND NOT (croppedForce K) = 0" using a(6) by simp
    have T: "(19 :: nat) = 11 + 8 * unat (pcs_ObjectCount p)
               + 8 * length (filter (\<lambda>f. f = croppedForce K) [f])"
      using a(4,7) by simp
    from readPresentationComposition_complete [OF a(1) st a(3) fs [symmetric] legal T a(8), of 19]
    obtain pc r' where R: "readPresentationComposition K 19 r = (Inr pc, r')"
      by auto
    from readPresentationComposition_success(3,4,6) [OF R a(1) fs [symmetric]] a(4,7)
    have "length (PC_Objects pc) = 1" "CO_Crop (PC_Objects pc ! 0) = None"
      "stream r' = drop 19 (stream r)"
      by (auto simp: list_all2_Cons1)
    with R show ?thesis by blast
  qed
  from 1 2 3 show ?thesis by blast
qed

text \<open>
  One object without a crop, declared with 19 and with 27 bytes, and one object with a
  crop, declared with 27 bytes.
\<close>

theorem readPresentationComposition_size_witness:
  "(\<exists>pc r'. readPresentationComposition pgs 19
        (source [7, 0x80, 4, 0x38, 0x10, 0, 1, 0x80, 0, 0, 1, 0, 1, 0, 0, 0, 10, 0, 20]) = (Inr pc, r')
      \<and> length (PC_Objects pc) = 1 \<and> CO_Crop (PC_Objects pc ! 0) = None \<and> stream r' = [])
   \<and> (\<exists>r'. readPresentationComposition pgs 27
        (source [7, 0x80, 4, 0x38, 0x10, 0, 1, 0x80, 0, 0, 1, 0, 1, 0, 0, 0, 10, 0, 20]) =
          (Inl (ReadBytesMismatch 19 27), r'))
   \<and> (\<exists>pc r'. readPresentationComposition pgs 27
        (source [7, 0x80, 4, 0x38, 0x10, 0, 1, 0x80, 0, 0, 1, 0, 1, 0, 0x40, 0, 10, 0, 20,
                 0, 0, 0, 0, 0, 5, 0, 5]) = (Inr pc, r')
      \<and> length (PC_Objects pc) = 1 \<and> stream r' = [])"
proof -
  let ?A = "source [7, 0x80, 4, 0x38, 0x10, 0, 1, 0x80, 0, 0, 1, 0, 1, 0, 0, 0, 10, 0, 20]"
  let ?B = "source [7, 0x80, 4, 0x38, 0x10, 0, 1, 0x80, 0, 0, 1, 0, 1, 0, 0x40, 0, 10, 0, 20,
                 0, 0, 0, 0, 0, 5, 0, 5]"
  have 1: "\<exists>pc r'. readPresentationComposition pgs 19 ?A = (Inr pc, r')
      \<and> length (PC_Objects pc) = 1 \<and> CO_Crop (PC_Objects pc ! 0) = None \<and> stream r' = []"
    using readPresentationComposition_size [where K = pgs and r = ?A
        and p = "decode_pcs (take 11 (stream ?A))"
        and f = "pco_ObjectCropped (decode_pcsCompositionObject (take 8 (drop 11 (stream ?A))))"]
    by (simp add: eval_defs)
  have 2: "\<exists>r'. readPresentationComposition pgs 27 ?A = (Inl (ReadBytesMismatch 19 27), r')"
    using readPresentationComposition_size [where K = pgs and r = ?A and segmentSize = 27
        and p = "decode_pcs (take 11 (stream ?A))"
        and fs = "stream_crop_flags pgs (unat (pcs_ObjectCount (decode_pcs (take 11 (stream ?A)))))
                    (drop 11 (stream ?A))"
        and T = 19]
    by (simp add: eval_defs)
  have "\<exists>pc r'. readPresentationComposition pgs 27 ?B = (Inr pc, r')"
    using readPresentationComposition_size [where K = pgs and r = ?B and segmentSize = 27
        and p = "decode_pcs (take 11 (stream ?B))"
        and fs = "stream_crop_flags pgs (unat (pcs_ObjectCount (decode_pcs (take 11 (stream ?B)))))
                    (drop 11 (stream ?B))"
        and T = 27]
    by (simp add: eval_defs)
  then obtain pc r' where R: "readPresentationComposition pgs 27 ?B = (Inr pc, r')" by blast
  with readPresentationComposition_size [where K = pgs and r = ?B and segmentSize = 27]
  have "length (PC_Objects pc) = 1" "stream r' = []"
    by (simp_all add: eval_defs)
  with R have 3: "\<exists>pc r'. readPresentationComposition pgs 27 ?B = (Inr pc, r')
      \<and> length (PC_Objects pc) = 1 \<and> stream r' = []" by blast
  from 1 2 3 show ?thesis by blast
qed


text \<open>
  C8. A composition state other than the three legal ones fails with the
  unrecognized-state error, and a palette-update flag with a bit outside \<^verbatim>\<open>pufTrue\<close>
  fails with the unrecognized-flag error. The first object record whose crop-flag byte has
  a bit outside \<^verbatim>\<open>croppedForce\<close> fails with the unrecognized-flag error of its position.
  When \<^verbatim>\<open>readPresentationComposition\<close> succeeds, the state and the palette-update flag
  are legal, every crop-flag byte of the input is legal, and an object of the result has
  a crop if and only if its crop-flag byte is \<^verbatim>\<open>croppedForce\<close>.
\<close>

theorem readPresentationComposition_flags:
  "(11 \<le> length (stream r) \<and> p = decode_pcs (take 11 (stream r))
      \<and> pcs_CompositionState p \<notin> {Normal K, AcquisitionPoint K, EpochStart K} \<longrightarrow>
      (\<exists>r'. readPresentationComposition K segmentSize r =
               (Inl (UnrecognizedCompositionState (pcs_CompositionState p)), r')))
   \<and> (11 \<le> length (stream r) \<and> p = decode_pcs (take 11 (stream r))
      \<and> pcs_CompositionState p \<in> {Normal K, AcquisitionPoint K, EpochStart K}
      \<and> pcs_PaletteUpdateFlag p AND NOT (pufTrue K) \<noteq> 0 \<longrightarrow>
      (\<exists>r'. readPresentationComposition K segmentSize r =
               (Inl (UnrecognizedPaletteUpdateFlag (pcs_PaletteUpdateFlag p)), r')))
   \<and> (p = decode_pcs (take 11 (stream r))
      \<and> pcs_CompositionState p \<in> {Normal K, AcquisitionPoint K, EpochStart K}
      \<and> pcs_PaletteUpdateFlag p AND NOT (pufTrue K) = 0
      \<and> fs = stream_crop_flags K (unat (pcs_ObjectCount p)) (drop 11 (stream r))
      \<and> i < unat (pcs_ObjectCount p)
      \<and> (\<forall>k<i. fs ! k AND NOT (croppedForce K) = 0)
      \<and> fs ! i AND NOT (croppedForce K) \<noteq> 0
      \<and> 11 + 8 * i + 8 * length (filter (\<lambda>f. f = croppedForce K) (take i fs)) + 8
           \<le> length (stream r) \<longrightarrow>
      (\<exists>r'. readPresentationComposition K segmentSize r =
               (Inl (UnrecognizedCropFlag (i + 1) (pcs_ObjectCount p) (fs ! i)), r')))
   \<and> (\<forall>pc r'. readPresentationComposition K segmentSize r = (Inr pc, r')
        \<and> p = decode_pcs (take 11 (stream r))
        \<and> fs = stream_crop_flags K (unat (pcs_ObjectCount p)) (drop 11 (stream r)) \<longrightarrow>
        pcs_CompositionState p \<in> {Normal K, AcquisitionPoint K, EpochStart K}
        \<and> pcs_PaletteUpdateFlag p AND NOT (pufTrue K) = 0
        \<and> length (PC_Objects pc) = length fs
        \<and> (\<forall>i<length fs. fs ! i AND NOT (croppedForce K) = 0
              \<and> ((CO_Crop (PC_Objects pc ! i) \<noteq> None) = (fs ! i = croppedForce K))))"
proof -
  let ?r1 = "snd (ReadFull 11 r)"
  have S1: "stream ?r1 = drop 11 (stream r)" by (simp add: ReadFull_snd)
  have 1: "\<exists>r'. readPresentationComposition K segmentSize r =
               (Inl (UnrecognizedCompositionState (pcs_CompositionState p)), r')"
    if "11 \<le> length (stream r)" "p = decode_pcs (take 11 (stream r))"
      "pcs_CompositionState p \<notin> {Normal K, AcquisitionPoint K, EpochStart K}"
    using that(3) unfolding readPresentationComposition_header [OF that(1,2) refl] by simp
  have 2: "\<exists>r'. readPresentationComposition K segmentSize r =
               (Inl (UnrecognizedPaletteUpdateFlag (pcs_PaletteUpdateFlag p)), r')"
    if "11 \<le> length (stream r)" "p = decode_pcs (take 11 (stream r))"
      "pcs_CompositionState p \<in> {Normal K, AcquisitionPoint K, EpochStart K}"
      "pcs_PaletteUpdateFlag p AND NOT (pufTrue K) \<noteq> 0"
    using that(3,4) unfolding readPresentationComposition_header [OF that(1,2) refl] by auto
  have 3: "\<exists>r'. readPresentationComposition K segmentSize r =
               (Inl (UnrecognizedCropFlag (i + 1) (pcs_ObjectCount p) (fs ! i)), r')"
    if a: "p = decode_pcs (take 11 (stream r))"
      "pcs_CompositionState p \<in> {Normal K, AcquisitionPoint K, EpochStart K}"
      "pcs_PaletteUpdateFlag p AND NOT (pufTrue K) = 0"
      "fs = stream_crop_flags K (unat (pcs_ObjectCount p)) (drop 11 (stream r))"
      "i < unat (pcs_ObjectCount p)"
      "\<forall>k<i. fs ! k AND NOT (croppedForce K) = 0"
      "fs ! i AND NOT (croppedForce K) \<noteq> 0"
      "11 + 8 * i + 8 * length (filter (\<lambda>f. f = croppedForce K) (take i fs)) + 8
           \<le> length (stream r)"
  proof -
    let ?fs = "stream_crop_flags K (i + 1) (stream ?r1)"
    from a(8) have len11: "11 \<le> length (stream r)" by simp
    have P: "?fs = take (i + 1) fs"
      using a(4,5) by (simp add: S1 stream_crop_flags_take)
    then have nth: "\<And>k. k \<le> i \<Longrightarrow> ?fs ! k = fs ! k" by simp
    have tk: "take i ?fs = take i fs" unfolding P by (simp add: min_def)
    have legal: "\<forall>k<i. ?fs ! k AND NOT (croppedForce K) = 0"
      using a(6) nth by simp
    have bad: "?fs ! i AND NOT (croppedForce K) \<noteq> 0"
      using a(7) nth by simp
    have len: "8 * i + 8 * length (filter (\<lambda>f. f = croppedForce K) (take i ?fs)) + 8
        \<le> length (stream ?r1)"
      unfolding tk using a(8) by (simp add: S1)
    from readPresentationComposition_loop_bad_flag [OF a(5) _ refl legal bad len, of 0 "[]" 11]
    obtain r' where "readPresentationComposition_loop K (pcs_ObjectCount p) 0 [] 11 ?r1 =
        (Inl (UnrecognizedCropFlag (i + 1) (pcs_ObjectCount p) (fs ! i)), r')"
      using nth [of i] by auto
    then show ?thesis
      using a(2,3) unfolding readPresentationComposition_header [OF len11 a(1) refl] by auto
  qed
  have 4: "pcs_CompositionState p \<in> {Normal K, AcquisitionPoint K, EpochStart K}
        \<and> pcs_PaletteUpdateFlag p AND NOT (pufTrue K) = 0
        \<and> length (PC_Objects pc) = length fs
        \<and> (\<forall>i<length fs. fs ! i AND NOT (croppedForce K) = 0
              \<and> ((CO_Crop (PC_Objects pc ! i) \<noteq> None) = (fs ! i = croppedForce K)))"
    if R: "readPresentationComposition K segmentSize r = (Inr pc, r')"
      and p: "p = decode_pcs (take 11 (stream r))"
      and fs: "fs = stream_crop_flags K (unat (pcs_ObjectCount p)) (drop 11 (stream r))"
    for pc r'
  proof -
    note S = readPresentationComposition_success [OF R p fs]
    from S(4) have "length fs = length (PC_Objects pc)"
      and "\<forall>i<length fs. fs ! i AND NOT (croppedForce K) = 0
              \<and> ((CO_Crop (PC_Objects pc ! i) \<noteq> None) = (fs ! i = croppedForce K))"
      by (simp_all add: list_all2_conv_all_nth)
    with S(1,2) show ?thesis by simp
  qed
  from 1 2 3 4 show ?thesis by blast
qed

text \<open>
  A composition state of \<^verbatim>\<open>0x20\<close>, a palette-update flag of \<^verbatim>\<open>0x01\<close>, a crop flag of
  \<^verbatim>\<open>0x80\<close>, and a composition of one object with a crop and one without.
\<close>

theorem readPresentationComposition_flags_witness:
  "(\<exists>r'. readPresentationComposition pgs 11
        (source [7, 0x80, 4, 0x38, 0x10, 0, 1, 0x20, 0, 0, 0]) =
          (Inl (UnrecognizedCompositionState 0x20), r'))
   \<and> (\<exists>r'. readPresentationComposition pgs 11
        (source [7, 0x80, 4, 0x38, 0x10, 0, 1, 0x80, 1, 0, 0]) =
          (Inl (UnrecognizedPaletteUpdateFlag 1), r'))
   \<and> (\<exists>r'. readPresentationComposition pgs 19
        (source [7, 0x80, 4, 0x38, 0x10, 0, 1, 0x80, 0, 0, 1, 0, 1, 0, 0x80, 0, 10, 0, 20]) =
          (Inl (UnrecognizedCropFlag 1 1 0x80), r'))
   \<and> (\<exists>pc r'. readPresentationComposition pgs 35
        (source [7, 0x80, 4, 0x38, 0x10, 0, 1, 0x80, 0x80, 0, 2,
                 0, 1, 0, 0x40, 0, 10, 0, 20, 0, 0, 0, 0, 0, 5, 0, 5,
                 0, 2, 0, 0, 0, 30, 0, 40]) = (Inr pc, r')
      \<and> length (PC_Objects pc) = 2
      \<and> CO_Crop (PC_Objects pc ! 0) \<noteq> None \<and> CO_Crop (PC_Objects pc ! 1) = None)"
proof -
  let ?A = "source [7, 0x80, 4, 0x38, 0x10, 0, 1, 0x20, 0, 0, 0]"
  let ?B = "source [7, 0x80, 4, 0x38, 0x10, 0, 1, 0x80, 1, 0, 0]"
  let ?C = "source [7, 0x80, 4, 0x38, 0x10, 0, 1, 0x80, 0, 0, 1, 0, 1, 0, 0x80, 0, 10, 0, 20]"
  let ?D = "source [7, 0x80, 4, 0x38, 0x10, 0, 1, 0x80, 0x80, 0, 2,
                 0, 1, 0, 0x40, 0, 10, 0, 20, 0, 0, 0, 0, 0, 5, 0, 5,
                 0, 2, 0, 0, 0, 30, 0, 40]"
  have 1: "\<exists>r'. readPresentationComposition pgs 11 ?A =
          (Inl (UnrecognizedCompositionState 0x20), r')"
    using readPresentationComposition_flags [where K = pgs and r = ?A and segmentSize = 11
        and p = "decode_pcs (take 11 (stream ?A))"]
    by (simp add: eval_defs)
  have 2: "\<exists>r'. readPresentationComposition pgs 11 ?B =
          (Inl (UnrecognizedPaletteUpdateFlag 1), r')"
    using readPresentationComposition_flags [where K = pgs and r = ?B and segmentSize = 11
        and p = "decode_pcs (take 11 (stream ?B))"]
    by (simp add: eval_defs)
  have 3: "\<exists>r'. readPresentationComposition pgs 19 ?C =
          (Inl (UnrecognizedCropFlag 1 1 0x80), r')"
    using readPresentationComposition_flags [where K = pgs and r = ?C and segmentSize = 19
        and p = "decode_pcs (take 11 (stream ?C))" and i = 0
        and fs = "stream_crop_flags pgs (unat (pcs_ObjectCount (decode_pcs (take 11 (stream ?C)))))
                    (drop 11 (stream ?C))"]
    by (simp add: eval_defs)
  have R: "readPresentationComposition pgs 35 ?D =
      (Inr \<lparr>PC_Width = 0x780, PC_Height = 0x438, PC_FrameRate = 0x10,
            PC_CompositionNumber = 1, PC_CompositionState = 0x80, PC_PaletteUpdate = True,
            PC_PaletteID = 0,
            PC_Objects =
              [\<lparr>CO_ObjectID = 1, CO_WindowID = 0, CO_X = 10, CO_Y = 20,
                 CO_Crop = Some \<lparr>Crop_X = 0, Crop_Y = 0, Crop_Width = 5, Crop_Height = 5\<rparr>\<rparr>,
               \<lparr>CO_ObjectID = 2, CO_WindowID = 0, CO_X = 30, CO_Y = 40, CO_Crop = None\<rparr>]\<rparr>,
       \<lparr>chunks = [], eof_with_data = False\<rparr>)"
    by (simp add: readPresentationComposition_def readPresentationComposition_loop.simps
        eval_Read eval_defs)
  have cD: "unat (pcs_ObjectCount (decode_pcs (take 11 (stream ?D)))) = Suc (Suc 0)"
    by (simp add: eval_defs)
  have fsD: "stream_crop_flags pgs (unat (pcs_ObjectCount (decode_pcs (take 11 (stream ?D)))))
      (drop 11 (stream ?D)) = [0x40, 0]"
    unfolding cD by (simp add: eval_defs Let_def)
  from readPresentationComposition_flags [where K = pgs and r = ?D and segmentSize = 35
        and p = "decode_pcs (take 11 (stream ?D))" and fs = "[0x40, 0]"] R fsD
  have "\<forall>i<2. (CO_Crop ([\<lparr>CO_ObjectID = 1, CO_WindowID = 0, CO_X = 10, CO_Y = 20,
                 CO_Crop = Some \<lparr>Crop_X = 0, Crop_Y = 0, Crop_Width = 5, Crop_Height = 5\<rparr>\<rparr>,
               \<lparr>CO_ObjectID = 2, CO_WindowID = 0, CO_X = 30, CO_Y = 40, CO_Crop = None\<rparr>] ! i)
              \<noteq> None) = ([0x40, 0 :: byte] ! i = croppedForce pgs)"
    by simp
  then have "CO_Crop ([\<lparr>CO_ObjectID = 1, CO_WindowID = 0, CO_X = 10, CO_Y = 20,
                 CO_Crop = Some \<lparr>Crop_X = 0, Crop_Y = 0, Crop_Width = 5, Crop_Height = 5\<rparr>\<rparr>,
               \<lparr>CO_ObjectID = 2, CO_WindowID = 0, CO_X = 30, CO_Y = 40, CO_Crop = None\<rparr>] ! 0)
              \<noteq> None"
    and "CO_Crop ([\<lparr>CO_ObjectID = 1, CO_WindowID = 0, CO_X = 10, CO_Y = 20,
                 CO_Crop = Some \<lparr>Crop_X = 0, Crop_Y = 0, Crop_Width = 5, Crop_Height = 5\<rparr>\<rparr>,
               \<lparr>CO_ObjectID = 2, CO_WindowID = 0, CO_X = 30, CO_Y = 40, CO_Crop = None\<rparr>] ! 1)
              = None"
    by (simp_all add: pgs_def)
  with R have 4: "\<exists>pc r'. readPresentationComposition pgs 35 ?D = (Inr pc, r')
      \<and> length (PC_Objects pc) = 2
      \<and> CO_Crop (PC_Objects pc ! 0) \<noteq> None \<and> CO_Crop (PC_Objects pc ! 1) = None"
    by simp
  from 1 2 3 4 show ?thesis by blast
qed

end
